theory Spec2Isabelle
  imports Main
begin

section \<open>Data model\<close>

text \<open>
  The task tree of \<^verbatim>\<open>src/App.tsx\<close>. The state is a flat JavaScript object
  \<^verbatim>\<open>tasks\<close> from ids to task objects, plus the list \<^verbatim>\<open>rootTaskIds\<close>.

  A task object is modelled as it exists at run time: a record in which every
  property may be absent (\<open>None\<close> is JavaScript's \<^verbatim>\<open>undefined\<close>). This is the
  type \<^verbatim>\<open>Partial<Task>\<close> of the source, and it is needed because
  \<^verbatim>\<open>updateTask\<close> can store an object that lacks properties. The property
  \<^verbatim>\<open>parentId\<close> has the type \<^verbatim>\<open>string | null\<close>, so its value is itself an
  option: \<open>Some None\<close> is \<^verbatim>\<open>null\<close>.

  The map of a state holds the own properties of the object \<^verbatim>\<open>tasks\<close>; what a read
  \<^verbatim>\<open>tasks[id]\<close> finds besides them is described by \<open>get_prop\<close> below.

  A read of a property of \<^verbatim>\<open>undefined\<close> throws a \<^verbatim>\<open>TypeError\<close>. A recursion
  or loop that would not return is modelled with fuel: the result \<open>None\<close> says
  that the given fuel did not suffice.
\<close>

datatype js_error = TypeError

record task =
  id_t :: "string option"
  title :: "string option"
  description :: "string option"
  completed :: "bool option"
  children :: "string list option"
  parentId :: "string option option"
  createdAt :: "nat option"

type_synonym task_map = "string \<rightharpoonup> task"

record app_state =
  tasks :: task_map
  rootTaskIds :: "string list"

type_synonym 'a result = "(js_error + 'a) option"

definition bind_r :: "'a result \<Rightarrow> ('a \<Rightarrow> 'b result) \<Rightarrow> 'b result" where
  "bind_r r f = (case r of None \<Rightarrow> None | Some (Inl e) \<Rightarrow> Some (Inl e) | Some (Inr a) \<Rightarrow> f a)"

definition ok :: "'a \<Rightarrow> 'a result" where
  "ok a = Some (Inr a)"

definition throw :: "js_error \<Rightarrow> 'a result" where
  "throw e = Some (Inl e)"

subsection \<open>JavaScript coercions used by the source\<close>

text \<open>Truthiness of \<^verbatim>\<open>task.completed\<close>: \<^verbatim>\<open>undefined\<close> and \<^verbatim>\<open>false\<close> are falsy.\<close>

definition js_true :: "bool option \<Rightarrow> bool" where
  "js_true b = (b = Some True)"

text \<open>
  The loop test \<^verbatim>\<open>while (currId)\<close> and the test \<^verbatim>\<open>if (taskToDelete.parentId)\<close>:
  \<^verbatim>\<open>undefined\<close>, \<^verbatim>\<open>null\<close> and the empty string are falsy. The result is the id
  when the value is truthy.
\<close>

fun truthy_id :: "string option option \<Rightarrow> string option" where
  "truthy_id None = None"
| "truthy_id (Some None) = None"
| "truthy_id (Some (Some s)) = (if s = [] then None else Some s)"

text \<open>A property key \<^verbatim>\<open>tasksCopy[parent.id]\<close>: \<^verbatim>\<open>undefined\<close> is converted to a string.\<close>

definition prop_key :: "string option \<Rightarrow> string" where
  "prop_key k = (case k of None \<Rightarrow> ''undefined'' | Some s \<Rightarrow> s)"

text \<open>
  Object spread \<^verbatim>\<open>{ ...a, ...b }\<close>: every property present in \<open>b\<close> wins.
  Spreading \<^verbatim>\<open>undefined\<close> contributes no property.
\<close>

definition empty_obj :: task where
  "empty_obj = \<lparr> id_t = None, title = None, description = None, completed = None,
                 children = None, parentId = None, createdAt = None \<rparr>"

definition or_else :: "'a option \<Rightarrow> 'a option \<Rightarrow> 'a option" where
  "or_else b a = (case b of None \<Rightarrow> a | Some v \<Rightarrow> Some v)"

definition spread :: "task option \<Rightarrow> task \<Rightarrow> task" where
  "spread a b =
     (let a' = (case a of None \<Rightarrow> empty_obj | Some t \<Rightarrow> t) in
      \<lparr> id_t = or_else (id_t b) (id_t a'),
        title = or_else (title b) (title a'),
        description = or_else (description b) (description a'),
        completed = or_else (completed b) (completed a'),
        children = or_else (children b) (children a'),
        parentId = or_else (parentId b) (parentId a'),
        createdAt = or_else (createdAt b) (createdAt a') \<rparr>)"

text \<open>
  The read \<^verbatim>\<open>obj[k]\<close> of a property of the object \<^verbatim>\<open>tasks\<close> or of one of its copies.
  These are plain objects (made by an object literal or by \<^verbatim>\<open>JSON.parse\<close>), so a key
  that is not an own property is looked up in \<^verbatim>\<open>Object.prototype\<close>, whose members have
  the names listed in \<open>object_prototype_keys\<close>. Such a member is a function, or for
  \<^verbatim>\<open>__proto__\<close> the object \<^verbatim>\<open>Object.prototype\<close> itself: a truthy value with none of
  the properties \<^verbatim>\<open>id\<close>, \<^verbatim>\<open>completed\<close>, \<^verbatim>\<open>children\<close>, \<^verbatim>\<open>parentId\<close> and with no enumerable
  own property, so that a spread of it contributes nothing. The source only reads these
  properties of it or spreads it, hence it is represented by the object without
  properties. For every other key that is not an own property the read gives
  \<^verbatim>\<open>undefined\<close>.
\<close>

definition object_prototype_keys :: "string list" where
  "object_prototype_keys =
     [''constructor'', ''hasOwnProperty'', ''isPrototypeOf'', ''propertyIsEnumerable'',
      ''toLocaleString'', ''toString'', ''valueOf'', ''__proto__'',
      ''__defineGetter__'', ''__defineSetter__'', ''__lookupGetter__'', ''__lookupSetter__'']"

definition get_prop :: "task_map \<Rightarrow> string \<Rightarrow> task option" where
  "get_prop obj k =
     (case obj k of
        Some t \<Rightarrow> Some t
      | None \<Rightarrow> if k \<in> set object_prototype_keys then Some empty_obj else None)"

text \<open>
  An assignment \<^verbatim>\<open>obj[k] = v\<close>, a computed key \<^verbatim>\<open>[k]: v\<close> of an object literal and
  \<^verbatim>\<open>delete obj[k]\<close> act on the own properties: they are updates of the map. (An
  assignment to the key \<^verbatim>\<open>__proto__\<close> would replace the prototype of the object when
  that key is not an own property. \<^verbatim>\<open>updateDescendants\<close> can make such an assignment,
  and then throws at its next step. The loops assign only to a key under which they have
  found a task, which is an own property. \<^verbatim>\<open>deleteTask\<close> assigns to the \<^verbatim>\<open>id\<close> of the
  parent it has found, which is the key of that parent in a map that is \<open>well_typed\<close>
  as defined below.)
\<close>

text \<open>\<^verbatim>\<open>Array.prototype.forEach\<close> with a callback that updates a state and may throw.\<close>

fun forEach :: "('a \<Rightarrow> 's \<Rightarrow> 's result) \<Rightarrow> 'a list \<Rightarrow> 's \<Rightarrow> 's result" where
  "forEach f [] s = ok s"
| "forEach f (x # xs) s = bind_r (f x s) (forEach f xs)"

text \<open>
  \<^verbatim>\<open>cids.every(cid => tasksCopy[cid].completed)\<close>: stops at the first falsy
  element; a child id for which \<^verbatim>\<open>tasksCopy[cid]\<close> is \<^verbatim>\<open>undefined\<close> makes the callback
  throw.
\<close>

fun every_completed :: "task_map \<Rightarrow> string list \<Rightarrow> js_error + bool" where
  "every_completed tasksCopy [] = Inr True"
| "every_completed tasksCopy (cid # cids) =
     (case get_prop tasksCopy cid of
        None \<Rightarrow> Inl TypeError
      | Some c \<Rightarrow> if js_true (completed c) then every_completed tasksCopy cids else Inr False)"

text \<open>\<^verbatim>\<open>Set.prototype.add\<close> on a set kept in insertion order.\<close>

definition set_add :: "'a \<Rightarrow> 'a list \<Rightarrow> 'a list" where
  "set_add x xs = (if x \<in> set xs then xs else xs @ [x])"

section \<open>The operations of \<^verbatim>\<open>src/App.tsx\<close>\<close>

subsection \<open>\<^verbatim>\<open>addTask\<close>\<close>

text \<open>
  The loop \<^verbatim>\<open>while (currId) { ... }\<close> that propagates the incomplete status up.
  \<^verbatim>\<open>updatedTasks[currId]\<close> is read without a guard.
\<close>

fun addTask_propagate :: "nat \<Rightarrow> task_map \<Rightarrow> string option option \<Rightarrow> task_map result" where
  "addTask_propagate 0 updatedTasks currId = None"
| "addTask_propagate (Suc fuel) updatedTasks currId =
     (case truthy_id currId of
        None \<Rightarrow> ok updatedTasks
      | Some c \<Rightarrow>
          (case get_prop updatedTasks c of
             None \<Rightarrow> throw TypeError
           | Some currTask \<Rightarrow>
               if \<not> js_true (completed currTask) then ok updatedTasks
               else addTask_propagate fuel
                      (updatedTasks(c \<mapsto> currTask\<lparr>completed := Some False\<rparr>))
                      (parentId currTask)))"

text \<open>
  \<open>newId\<close> is the value of \<^verbatim>\<open>uuidv4()\<close> and \<open>now\<close> the value of \<^verbatim>\<open>Date.now()\<close>.
\<close>

definition addTask :: "nat \<Rightarrow> string \<Rightarrow> nat \<Rightarrow> app_state \<Rightarrow> string \<Rightarrow> string \<Rightarrow> app_state result" where
  "addTask fuel newId now prev parentId' title' =
     (case get_prop (tasks prev) parentId' of
        None \<Rightarrow> ok prev
      | Some parent \<Rightarrow>
          (case children parent of
             None \<Rightarrow> throw TypeError
           | Some cs \<Rightarrow>
               (let newTask = \<lparr> id_t = Some newId, title = Some title', description = Some [],
                                completed = Some False, children = Some [],
                                parentId = Some (Some parentId'), createdAt = Some now \<rparr>;
                    updatedTasks = (tasks prev)
                      (newId \<mapsto> newTask,
                       parentId' \<mapsto> parent\<lparr>children := Some (cs @ [newId]), completed := Some False\<rparr>)
                in bind_r (addTask_propagate fuel updatedTasks (parentId parent))
                     (\<lambda>updatedTasks'. ok (prev\<lparr>tasks := updatedTasks'\<rparr>)))))"

subsection \<open>\<^verbatim>\<open>toggleTask\<close>\<close>

text \<open>The local recursive function \<^verbatim>\<open>updateDescendants\<close>; \<open>tasksCopy\<close> is threaded.\<close>

fun updateDescendants :: "nat \<Rightarrow> string \<Rightarrow> bool \<Rightarrow> task_map \<Rightarrow> task_map result" where
  "updateDescendants 0 i status tasksCopy = None"
| "updateDescendants (Suc fuel) i status tasksCopy =
     (case get_prop tasksCopy i of
        None \<Rightarrow> ok tasksCopy
      | Some t \<Rightarrow>
          (case children t of
             None \<Rightarrow> throw TypeError
           | Some cs \<Rightarrow>
               forEach (\<lambda>childId tc. updateDescendants fuel childId status tc) cs
                 (tasksCopy(i \<mapsto> t\<lparr>completed := Some status\<rparr>))))"

text \<open>The loop that propagates the change up, starting at \<^verbatim>\<open>task.parentId\<close>.\<close>

fun toggleTask_propagate :: "nat \<Rightarrow> bool \<Rightarrow> task_map \<Rightarrow> string option option \<Rightarrow> task_map result" where
  "toggleTask_propagate 0 newCompleted tasksCopy currId = None"
| "toggleTask_propagate (Suc fuel) newCompleted tasksCopy currId =
     (case truthy_id currId of
        None \<Rightarrow> ok tasksCopy
      | Some c \<Rightarrow>
          (case get_prop tasksCopy c of
             None \<Rightarrow> ok tasksCopy
           | Some parent \<Rightarrow>
               if newCompleted then
                 (case children parent of
                    None \<Rightarrow> throw TypeError
                  | Some cs \<Rightarrow>
                      (case every_completed tasksCopy cs of
                         Inl e \<Rightarrow> throw e
                       | Inr allChildrenComplete \<Rightarrow>
                           if allChildrenComplete then
                             toggleTask_propagate fuel newCompleted
                               (tasksCopy(c \<mapsto> parent\<lparr>completed := Some True\<rparr>)) (parentId parent)
                           else if js_true (completed parent) then
                             toggleTask_propagate fuel newCompleted
                               (tasksCopy(c \<mapsto> parent\<lparr>completed := Some False\<rparr>)) (parentId parent)
                           else ok tasksCopy))
               else if \<not> js_true (completed parent) then ok tasksCopy
               else toggleTask_propagate fuel newCompleted
                      (tasksCopy(c \<mapsto> parent\<lparr>completed := Some False\<rparr>)) (parentId parent)))"

definition toggleTask :: "nat \<Rightarrow> app_state \<Rightarrow> string \<Rightarrow> app_state result" where
  "toggleTask fuel prev taskId =
     (case get_prop (tasks prev) taskId of
        None \<Rightarrow> ok prev
      | Some task \<Rightarrow>
          (let newCompleted = \<not> js_true (completed task) in
           bind_r (updateDescendants fuel taskId newCompleted (tasks prev)) (\<lambda>tasksCopy.
           bind_r (toggleTask_propagate fuel newCompleted tasksCopy (parentId task)) (\<lambda>tasksCopy'.
           ok (prev\<lparr>tasks := tasksCopy'\<rparr>)))))"

subsection \<open>\<^verbatim>\<open>deleteTask\<close>\<close>

text \<open>The local recursive function \<^verbatim>\<open>collect\<close>; the set \<open>idsToDelete\<close> is threaded.\<close>

fun collect :: "nat \<Rightarrow> task_map \<Rightarrow> string \<Rightarrow> string list \<Rightarrow> string list result" where
  "collect 0 tasksCopy i idsToDelete = None"
| "collect (Suc fuel) tasksCopy i idsToDelete =
     (case get_prop tasksCopy i of
        None \<Rightarrow> ok (set_add i idsToDelete)
      | Some t \<Rightarrow>
          (case children t of
             None \<Rightarrow> throw TypeError
           | Some cs \<Rightarrow> forEach (\<lambda>c ids. collect fuel tasksCopy c ids) cs (set_add i idsToDelete)))"

text \<open>The loop that propagates completion up after a deletion.\<close>

fun deleteTask_propagate :: "nat \<Rightarrow> task_map \<Rightarrow> string option option \<Rightarrow> task_map result" where
  "deleteTask_propagate 0 tasksCopy currId = None"
| "deleteTask_propagate (Suc fuel) tasksCopy currId =
     (case truthy_id currId of
        None \<Rightarrow> ok tasksCopy
      | Some c \<Rightarrow>
          (case get_prop tasksCopy c of
             None \<Rightarrow> throw TypeError
           | Some p \<Rightarrow>
               (case children p of
                  None \<Rightarrow> throw TypeError
                | Some cs \<Rightarrow>
                    (case every_completed tasksCopy cs of
                       Inl e \<Rightarrow> throw e
                     | Inr b \<Rightarrow>
                         if b then
                           deleteTask_propagate fuel
                             (tasksCopy(c \<mapsto> p\<lparr>completed := Some True\<rparr>)) (parentId p)
                         else ok tasksCopy))))"

text \<open>The part of \<^verbatim>\<open>deleteTask\<close> guarded by \<^verbatim>\<open>if (taskToDelete.parentId)\<close>.\<close>

definition deleteTask_detach :: "nat \<Rightarrow> task_map \<Rightarrow> string \<Rightarrow> task \<Rightarrow> task_map result" where
  "deleteTask_detach fuel tasksCopy taskId taskToDelete =
     (case truthy_id (parentId taskToDelete) of
        None \<Rightarrow> ok tasksCopy
      | Some pid \<Rightarrow>
          (case get_prop tasksCopy pid of
             None \<Rightarrow> ok tasksCopy
           | Some parent \<Rightarrow>
               (case children parent of
                  None \<Rightarrow> throw TypeError
                | Some cs \<Rightarrow>
                    (let newChildren = filter (\<lambda>cid. cid \<noteq> taskId) cs;
                         tasksCopy1 = tasksCopy(prop_key (id_t parent) \<mapsto>
                                        parent\<lparr>children := Some newChildren\<rparr>)
                     in if newChildren \<noteq> [] then
                          (case every_completed tasksCopy1 newChildren of
                             Inl e \<Rightarrow> throw e
                           | Inr b \<Rightarrow>
                               if b then deleteTask_propagate fuel tasksCopy1
                                           (map_option Some (id_t parent))
                               else ok tasksCopy1)
                        else ok tasksCopy1))))"

definition deleteTask :: "nat \<Rightarrow> app_state \<Rightarrow> string \<Rightarrow> app_state result" where
  "deleteTask fuel prev taskId =
     bind_r (collect fuel (tasks prev) taskId []) (\<lambda>idsToDelete.
       (case get_prop (tasks prev) taskId of
          None \<Rightarrow> throw TypeError
        | Some taskToDelete \<Rightarrow>
            bind_r (deleteTask_detach fuel (tasks prev) taskId taskToDelete) (\<lambda>tasksCopy.
              ok \<lparr> tasks = fold (\<lambda>i tc. tc(i := None)) idsToDelete tasksCopy,
                   rootTaskIds = filter (\<lambda>i. i \<noteq> taskId) (rootTaskIds prev) \<rparr>)))"

subsection \<open>\<^verbatim>\<open>updateTask\<close>\<close>

definition updateTask :: "app_state \<Rightarrow> string \<Rightarrow> task \<Rightarrow> app_state" where
  "updateTask prev i updates =
     prev\<lparr>tasks := (tasks prev)(i \<mapsto> spread (get_prop (tasks prev) i) updates)\<rparr>"

section \<open>Views of the task map and the invariants of the data model\<close>

definition childrenOf :: "task_map \<Rightarrow> string \<Rightarrow> string list" where
  "childrenOf tm k =
     (case tm k of None \<Rightarrow> [] | Some t \<Rightarrow> (case children t of None \<Rightarrow> [] | Some cs \<Rightarrow> cs))"

definition parentOf :: "task_map \<Rightarrow> string \<Rightarrow> string option" where
  "parentOf tm k =
     (case tm k of None \<Rightarrow> None | Some t \<Rightarrow> (case parentId t of None \<Rightarrow> None | Some p \<Rightarrow> p))"

definition isDone :: "task_map \<Rightarrow> string \<Rightarrow> bool" where
  "isDone tm k = (case tm k of None \<Rightarrow> False | Some t \<Rightarrow> js_true (completed t))"

text \<open>
  The shape of the data: the object has finitely many keys, every task has all the
  properties of the interface \<^verbatim>\<open>Task\<close>, is stored under its own id, and ids are
  not the empty string (they come from \<^verbatim>\<open>uuidv4()\<close>; the source tests ids for
  truthiness).
\<close>

definition well_typed :: "task_map \<Rightarrow> bool" where
  "well_typed tm \<longleftrightarrow>
     finite (dom tm) \<and>
     (\<forall>k t. tm k = Some t \<longrightarrow>
        k \<noteq> [] \<and> id_t t = Some k \<and> title t \<noteq> None \<and> description t \<noteq> None \<and>
        completed t \<noteq> None \<and> children t \<noteq> None \<and> parentId t \<noteq> None \<and> createdAt t \<noteq> None)"

text \<open>Invariant 1: every id in a children list or used as a parent id is a key.\<close>

definition referential_integrity :: "task_map \<Rightarrow> bool" where
  "referential_integrity tm \<longleftrightarrow>
     (\<forall>k. (\<forall>c \<in> set (childrenOf tm k). c \<in> dom tm) \<and>
          (\<forall>p. parentOf tm k = Some p \<longrightarrow> p \<in> dom tm))"

text \<open>
  Invariant 2: the parent id of a child and membership in the parent's children list
  agree exactly, and a children list has no duplicates.
\<close>

definition back_reference :: "task_map \<Rightarrow> bool" where
  "back_reference tm \<longleftrightarrow>
     (\<forall>p c. c \<in> set (childrenOf tm p) \<longleftrightarrow> parentOf tm c = Some p) \<and>
     (\<forall>k. distinct (childrenOf tm k))"

text \<open>Invariant 3: following parent ids from any task stops after finitely many steps.\<close>

definition parent_rel :: "task_map \<Rightarrow> (string \<times> string) set" where
  "parent_rel tm = {(p, c). parentOf tm c = Some p}"

definition acyclicity :: "task_map \<Rightarrow> bool" where
  "acyclicity tm \<longleftrightarrow> wf (parent_rel tm)"

text \<open>
  Invariant 4: a task with a non-empty children list is completed exactly when all
  its children are.
\<close>

definition completion_ok :: "task_map \<Rightarrow> string \<Rightarrow> bool" where
  "completion_ok tm k \<longleftrightarrow>
     (childrenOf tm k \<noteq> [] \<longrightarrow> (isDone tm k \<longleftrightarrow> (\<forall>c \<in> set (childrenOf tm k). isDone tm c)))"

definition completion_invariant :: "task_map \<Rightarrow> bool" where
  "completion_invariant tm \<longleftrightarrow> (\<forall>k. completion_ok tm k)"

text \<open>Invariant 5: the root list holds exactly the tasks without a parent, each once.\<close>

definition root_set_consistency :: "app_state \<Rightarrow> bool" where
  "root_set_consistency s \<longleftrightarrow>
     distinct (rootTaskIds s) \<and>
     set (rootTaskIds s) = {k \<in> dom (tasks s). parentOf (tasks s) k = None}"

definition wf_state :: "app_state \<Rightarrow> bool" where
  "wf_state s \<longleftrightarrow>
     well_typed (tasks s) \<and> referential_integrity (tasks s) \<and> back_reference (tasks s) \<and>
     acyclicity (tasks s) \<and> completion_invariant (tasks s) \<and> root_set_consistency s"

text \<open>The descendants of a task, through the children lists.\<close>

definition child_rel :: "task_map \<Rightarrow> (string \<times> string) set" where
  "child_rel tm = {(p, c). c \<in> set (childrenOf tm p)}"

definition descendants :: "task_map \<Rightarrow> string \<Rightarrow> string set" where
  "descendants tm k = (child_rel tm)\<^sup>+ `` {k}"

definition subtree :: "task_map \<Rightarrow> string \<Rightarrow> string set" where
  "subtree tm k = (child_rel tm)\<^sup>* `` {k}"

definition ancestors :: "task_map \<Rightarrow> string \<Rightarrow> string set" where
  "ancestors tm k = {a. (a, k) \<in> (parent_rel tm)\<^sup>+}"

text \<open>A function of the fuel returns \<open>a\<close> when every large enough fuel gives \<open>a\<close>.\<close>

definition returns :: "(nat \<Rightarrow> 'a result) \<Rightarrow> 'a \<Rightarrow> bool" where
  "returns f a \<longleftrightarrow> (\<exists>n. \<forall>m\<ge>n. f m = Some (Inr a))"

subsection \<open>An example state\<close>

text \<open>
  A root \<open>r\<close> with the leaves \<open>a\<close> (completed) and \<open>b\<close> (not completed), and a second
  root \<open>q\<close> with the completed child \<open>m\<close>, whose only child is the completed leaf \<open>l\<close>.
\<close>

definition mk_task :: "string \<Rightarrow> bool \<Rightarrow> string list \<Rightarrow> string option \<Rightarrow> task" where
  "mk_task i c cs p =
     \<lparr> id_t = Some i, title = Some ''t'', description = Some [], completed = Some c,
       children = Some cs, parentId = Some p, createdAt = Some 0 \<rparr>"

definition example_tasks :: task_map where
  "example_tasks =
     [''r'' \<mapsto> mk_task ''r'' False [''a'', ''b''] None,
      ''a'' \<mapsto> mk_task ''a'' True [] (Some ''r''),
      ''b'' \<mapsto> mk_task ''b'' False [] (Some ''r''),
      ''q'' \<mapsto> mk_task ''q'' True [''m''] None,
      ''m'' \<mapsto> mk_task ''m'' True [''l''] (Some ''q''),
      ''l'' \<mapsto> mk_task ''l'' True [] (Some ''m'')]"

definition example_state :: app_state where
  "example_state = \<lparr> tasks = example_tasks, rootTaskIds = [''r'', ''q''] \<rparr>"

section \<open>Auxiliary definitions for the proofs\<close>

definition shape :: "task_map \<Rightarrow> task_map" where
  "shape tm = (\<lambda>k. map_option (\<lambda>t. t\<lparr>completed := None\<rparr>) (tm k))"

definition flags_defined :: "task_map \<Rightarrow> bool" where
  "flags_defined tm \<longleftrightarrow> (\<forall>k t. tm k = Some t \<longrightarrow> completed t \<noteq> None)"

definition force :: "string set \<Rightarrow> bool \<Rightarrow> task_map \<Rightarrow> task_map" where
  "force S v tm = (\<lambda>k. if k \<in> S then map_option (\<lambda>t. t\<lparr>completed := Some v\<rparr>) (tm k) else tm k)"

definition children_defined :: "task_map \<Rightarrow> bool" where
  "children_defined tm \<longleftrightarrow> (\<forall>k t. tm k = Some t \<longrightarrow> children t \<noteq> None)"

text \<open>
  The three loops that walk up the parent ids have one form: at the current task they stop,
  throw, or set its flag and go on with its parent. They differ in the decision only.
\<close>

datatype decision = Stop | Throw | Set bool

fun up_loop :: "(task_map \<Rightarrow> task option \<Rightarrow> decision) \<Rightarrow> nat \<Rightarrow> task_map \<Rightarrow>
                string option option \<Rightarrow> task_map result" where
  "up_loop d 0 tm currId = None"
| "up_loop d (Suc fuel) tm currId =
     (case truthy_id currId of
        None \<Rightarrow> ok tm
      | Some c \<Rightarrow>
          (case d tm (get_prop tm c) of
             Stop \<Rightarrow> ok tm
           | Throw \<Rightarrow> throw TypeError
           | Set b \<Rightarrow>
               (case get_prop tm c of
                  None \<Rightarrow> ok tm
                | Some t \<Rightarrow> up_loop d fuel (tm(c \<mapsto> t\<lparr>completed := Some b\<rparr>)) (parentId t))))"

definition addTask_decision :: "task_map \<Rightarrow> task option \<Rightarrow> decision" where
  "addTask_decision tm x =
     (case x of None \<Rightarrow> Throw
      | Some t \<Rightarrow> if \<not> js_true (completed t) then Stop else Set False)"

definition toggleTask_decision :: "bool \<Rightarrow> task_map \<Rightarrow> task option \<Rightarrow> decision" where
  "toggleTask_decision newCompleted tm x =
     (case x of None \<Rightarrow> Stop
      | Some parent \<Rightarrow>
          if newCompleted then
            (case children parent of None \<Rightarrow> Throw
             | Some cs \<Rightarrow>
                 (case every_completed tm cs of Inl e \<Rightarrow> Throw
                  | Inr a \<Rightarrow> if a then Set True
                             else if js_true (completed parent) then Set False else Stop))
          else if \<not> js_true (completed parent) then Stop else Set False)"

definition deleteTask_decision :: "task_map \<Rightarrow> task option \<Rightarrow> decision" where
  "deleteTask_decision tm x =
     (case x of None \<Rightarrow> Throw
      | Some p \<Rightarrow>
          (case children p of None \<Rightarrow> Throw
           | Some cs \<Rightarrow>
               (case every_completed tm cs of Inl e \<Rightarrow> Throw
                | Inr b \<Rightarrow> if b then Set True else Stop)))"

definition upward_ok :: "task_map \<Rightarrow> bool" where
  "upward_ok tm \<longleftrightarrow>
     well_typed tm \<and> referential_integrity tm \<and>
     (\<forall>p c. c \<in> set (childrenOf tm p) \<longrightarrow> parentOf tm c = Some p) \<and> acyclicity tm"

definition struct_ok :: "task_map \<Rightarrow> bool" where
  "struct_ok tm \<longleftrightarrow>
     well_typed tm \<and> referential_integrity tm \<and> back_reference tm \<and> acyclicity tm"

definition newTask :: "string \<Rightarrow> string \<Rightarrow> string \<Rightarrow> nat \<Rightarrow> task" where
  "newTask newId title' parentId' now =
     \<lparr> id_t = Some newId, title = Some title', description = Some [],
       completed = Some False, children = Some [],
       parentId = Some (Some parentId'), createdAt = Some now \<rparr>"

definition add_node :: "task_map \<Rightarrow> string \<Rightarrow> task \<Rightarrow> string \<Rightarrow> task_map" where
  "add_node tm newId nt p =
     (case tm p of None \<Rightarrow> tm
      | Some tp \<Rightarrow> tm(newId \<mapsto> nt,
           p \<mapsto> tp\<lparr>children := Some (childrenOf tm p @ [newId]), completed := Some False\<rparr>))"

definition detach_node :: "task_map \<Rightarrow> string \<Rightarrow> task_map" where
  "detach_node tm x =
     (case parentOf tm x of None \<Rightarrow> tm
      | Some p \<Rightarrow>
          (case tm p of None \<Rightarrow> tm
           | Some tp \<Rightarrow> tm(p \<mapsto> tp\<lparr>children := Some (filter (\<lambda>c. c \<noteq> x) (childrenOf tm p))\<rparr>)))"

definition result_task :: "app_state result \<Rightarrow> string \<Rightarrow> task option" where
  "result_task r k = (case r of Some (Inr s) \<Rightarrow> tasks s k | _ \<Rightarrow> None)"

definition toggle_twice :: "nat \<Rightarrow> app_state \<Rightarrow> string \<Rightarrow> app_state result" where
  "toggle_twice fuel s taskId = bind_r (toggleTask fuel s taskId) (\<lambda>s'. toggleTask fuel s' taskId)"

text \<open>
  The four operations as data. \<open>Create\<close> carries the values that \<^verbatim>\<open>addTask\<close> draws
  from \<^verbatim>\<open>uuidv4()\<close> and \<^verbatim>\<open>Date.now()\<close>; \<open>EditFields\<close> carries an optional title and
  an optional description, the update of the spec's \<^verbatim>\<open>editFields\<close>.
\<close>

datatype op =
    Create string string string nat
  | ToggleCompletion string
  | EditFields string "string option" "string option"
  | Delete string

fun apply_op :: "nat \<Rightarrow> app_state \<Rightarrow> op \<Rightarrow> app_state result" where
  "apply_op fuel s (Create parentId' title' newId now) = addTask fuel newId now s parentId' title'"
| "apply_op fuel s (ToggleCompletion taskId) = toggleTask fuel s taskId"
| "apply_op fuel s (EditFields taskId ttl dsc) =
     ok (updateTask s taskId (empty_obj\<lparr>title := ttl, description := dsc\<rparr>))"
| "apply_op fuel s (Delete taskId) = deleteTask fuel s taskId"

text \<open>
  An operation is valid in a state when the id it takes is a key of the map; for
  \<open>Create\<close> the new id is, as a value of \<^verbatim>\<open>uuidv4()\<close>, not empty and not yet a key.
\<close>

fun valid_op :: "app_state \<Rightarrow> op \<Rightarrow> bool" where
  "valid_op s (Create parentId' title' newId now) =
     (parentId' \<in> dom (tasks s) \<and> newId \<notin> dom (tasks s) \<and> newId \<noteq> [])"
| "valid_op s (ToggleCompletion taskId) = (taskId \<in> dom (tasks s))"
| "valid_op s (EditFields taskId ttl dsc) = (taskId \<in> dom (tasks s))"
| "valid_op s (Delete taskId) = (taskId \<in> dom (tasks s))"

text \<open>Running a sequence of operations gives the list of the states after each of them.\<close>

fun run_ops :: "nat \<Rightarrow> app_state \<Rightarrow> op list \<Rightarrow> app_state list result" where
  "run_ops fuel s [] = ok []"
| "run_ops fuel s (op # ops) =
     bind_r (apply_op fuel s op) (\<lambda>s'. bind_r (run_ops fuel s' ops) (\<lambda>ss. ok (s' # ss)))"

text \<open>Every operation of the sequence is valid in the state it is applied to.\<close>

fun ops_valid :: "app_state \<Rightarrow> op list \<Rightarrow> bool" where
  "ops_valid s [] = True"
| "ops_valid s (op # ops) =
     (valid_op s op \<and> (\<forall>s'. returns (\<lambda>fuel. apply_op fuel s op) s' \<longrightarrow> ops_valid s' ops))"

section \<open>Basic facts\<close>

lemma bind_r_simps [simp]:
  "bind_r None f = None"
  "bind_r (Some (Inl e)) f = Some (Inl e)"
  "bind_r (Some (Inr a)) f = f a"
  "bind_r (ok a) f = f a"
  "bind_r (throw e) f = throw e"
  by (simp_all add: bind_r_def ok_def throw_def)

lemma get_prop_Some [simp]: "tm k = Some t \<Longrightarrow> get_prop tm k = Some t"
  by (simp add: get_prop_def)

lemma get_prop_dom: "k \<in> dom tm \<Longrightarrow> get_prop tm k = tm k"
  by (auto simp: get_prop_def)

lemma get_prop_upd [simp]: "get_prop (tm(k \<mapsto> t)) k = Some t"
  by (simp add: get_prop_def)

lemma get_prop_None:
  "tm k = None \<Longrightarrow> k \<notin> set object_prototype_keys \<Longrightarrow> get_prop tm k = None"
  by (simp add: get_prop_def)

lemma get_prop_inherited:
  "tm k = None \<Longrightarrow> k \<in> set object_prototype_keys \<Longrightarrow> get_prop tm k = Some empty_obj"
  by (simp add: get_prop_def)

lemma returnsI: "(\<And>m. n \<le> m \<Longrightarrow> f m = Some (Inr a)) \<Longrightarrow> returns f a"
  unfolding returns_def by blast

lemma returns_const: "returns (\<lambda>n. ok a) a"
  by (rule returnsI [of 0]) (simp add: ok_def)

lemma returns_unique: "returns f a \<Longrightarrow> returns f b \<Longrightarrow> a = b"
proof -
  assume "returns f a" "returns f b"
  then obtain n1 n2 where 1: "\<forall>m\<ge>n1. f m = Some (Inr a)" and 2: "\<forall>m\<ge>n2. f m = Some (Inr b)"
    unfolding returns_def by blast
  from 1 have "f (max n1 n2) = Some (Inr a)" by simp
  moreover from 2 have "f (max n1 n2) = Some (Inr b)" by simp
  ultimately show "a = b" by simp
qed

lemma returns_Suc: "returns (\<lambda>n. f (Suc n)) a \<Longrightarrow> returns f a"
proof -
  assume "returns (\<lambda>n. f (Suc n)) a"
  then obtain n where n: "\<forall>m\<ge>n. f (Suc m) = Some (Inr a)"
    unfolding returns_def by blast
  show "returns f a"
  proof (rule returnsI [of "Suc n"])
    fix m assume "Suc n \<le> m"
    then obtain k where "m = Suc k" "n \<le> k" by (cases m) auto
    with n show "f m = Some (Inr a)" by simp
  qed
qed

lemma returns_bind:
  assumes "returns f a" and "returns (\<lambda>n. g n a) b"
  shows "returns (\<lambda>n. bind_r (f n) (g n)) b"
proof -
  from assms obtain n1 n2 where 1: "\<forall>m\<ge>n1. f m = Some (Inr a)"
    and 2: "\<forall>m\<ge>n2. g m a = Some (Inr b)"
    unfolding returns_def by blast
  show ?thesis
    by (rule returnsI [of "max n1 n2"]) (simp add: 1 2)
qed

lemma returns_cong: "(\<And>n. f n = g n) \<Longrightarrow> returns f a = returns g a"
  by (simp add: returns_def)

subsection \<open>The shape of a task map: everything but the completion flags\<close>

lemma shape_upd_completed [simp]:
  "tm k = Some t \<Longrightarrow> shape (tm(k \<mapsto> t\<lparr>completed := x\<rparr>)) = shape tm"
  by (auto simp: shape_def fun_eq_iff)

lemma shape_lookup:
  assumes "shape tm = shape tm'" and "tm k = Some t"
  shows "\<exists>t'. tm' k = Some t' \<and> t'\<lparr>completed := None\<rparr> = t\<lparr>completed := None\<rparr>"
proof -
  from assms(1) have "shape tm' k = shape tm k" by simp
  with assms(2) show ?thesis by (auto simp: shape_def)
qed

lemma shape_None: "shape tm = shape tm' \<Longrightarrow> tm k = None \<longleftrightarrow> tm' k = None"
proof -
  assume "shape tm = shape tm'"
  then have "shape tm k = shape tm' k" by simp
  then show ?thesis by (auto simp: shape_def)
qed

lemma dom_shape [simp]: "dom (shape tm) = dom tm"
  by (auto simp: shape_def dom_def)

lemma childrenOf_shape [simp]: "childrenOf (shape tm) = childrenOf tm"
  by (auto simp: childrenOf_def shape_def fun_eq_iff split: option.splits)

lemma parentOf_shape [simp]: "parentOf (shape tm) = parentOf tm"
  by (auto simp: parentOf_def shape_def fun_eq_iff split: option.splits)

lemma shape_dom: "shape tm = shape tm' \<Longrightarrow> dom tm = dom tm'"
  by (metis dom_shape)

lemma shape_childrenOf: "shape tm = shape tm' \<Longrightarrow> childrenOf tm = childrenOf tm'"
  by (metis childrenOf_shape)

lemma shape_parentOf: "shape tm = shape tm' \<Longrightarrow> parentOf tm = parentOf tm'"
  by (metis parentOf_shape)

lemma shape_parent_rel: "shape tm = shape tm' \<Longrightarrow> parent_rel tm = parent_rel tm'"
  using shape_parentOf [of tm tm'] by (simp add: parent_rel_def)

lemma shape_child_rel: "shape tm = shape tm' \<Longrightarrow> child_rel tm = child_rel tm'"
  using shape_childrenOf [of tm tm'] by (simp add: child_rel_def)

lemma task_eqI:
  fixes t t' :: task
  assumes "t'\<lparr>completed := None\<rparr> = t\<lparr>completed := None\<rparr>" and "completed t' = completed t"
  shows "t' = t"
proof -
  have "t' = (t'\<lparr>completed := None\<rparr>)\<lparr>completed := completed t'\<rparr>" by simp
  also have "\<dots> = (t\<lparr>completed := None\<rparr>)\<lparr>completed := completed t\<rparr>"
    using assms by simp
  also have "\<dots> = t" by simp
  finally show ?thesis .
qed

lemma shape_fields:
  fixes t t' :: task
  assumes "t'\<lparr>completed := None\<rparr> = t\<lparr>completed := None\<rparr>"
  shows "id_t t' = id_t t" "title t' = title t" "description t' = description t"
    "children t' = children t" "parentId t' = parentId t" "createdAt t' = createdAt t"
proof -
  have "id_t (t'\<lparr>completed := None\<rparr>) = id_t (t\<lparr>completed := None\<rparr>)" using assms by simp
  then show "id_t t' = id_t t" by simp
  have "title (t'\<lparr>completed := None\<rparr>) = title (t\<lparr>completed := None\<rparr>)" using assms by simp
  then show "title t' = title t" by simp
  have "description (t'\<lparr>completed := None\<rparr>) = description (t\<lparr>completed := None\<rparr>)" using assms by simp
  then show "description t' = description t" by simp
  have "children (t'\<lparr>completed := None\<rparr>) = children (t\<lparr>completed := None\<rparr>)" using assms by simp
  then show "children t' = children t" by simp
  have "parentId (t'\<lparr>completed := None\<rparr>) = parentId (t\<lparr>completed := None\<rparr>)" using assms by simp
  then show "parentId t' = parentId t" by simp
  have "createdAt (t'\<lparr>completed := None\<rparr>) = createdAt (t\<lparr>completed := None\<rparr>)" using assms by simp
  then show "createdAt t' = createdAt t" by simp
qed

lemma shape_flags_eq:
  assumes sh: "shape tm = shape tm'" and fd: "flags_defined tm" "flags_defined tm'"
    and dn: "\<And>k. k \<in> dom tm \<Longrightarrow> isDone tm k = isDone tm' k"
  shows "tm = tm'"
proof
  fix k
  show "tm k = tm' k"
  proof (cases "tm k")
    case None
    with sh show ?thesis using shape_None [of tm tm' k] by simp
  next
    case (Some t)
    with shape_lookup [OF sh Some] obtain t' where t': "tm' k = Some t'"
      "t'\<lparr>completed := None\<rparr> = t\<lparr>completed := None\<rparr>" by blast
    from fd Some t' obtain b b' where b: "completed t = Some b" "completed t' = Some b'"
      unfolding flags_defined_def by blast
    from dn [of k] Some t' b have "b = b'"
      by (auto simp: isDone_def js_true_def)
    with b have "completed t' = completed t" by simp
    with t'(2) have "t' = t" by (rule task_eqI)
    with Some t' show ?thesis by simp
  qed
qed

lemma well_typed_shape:
  assumes "well_typed tm" "shape tm = shape tm'" "flags_defined tm'"
  shows "well_typed tm'"
  unfolding well_typed_def
proof (intro conjI allI impI)
  from assms show "finite (dom tm')" by (simp add: well_typed_def shape_dom [OF assms(2), symmetric])
next
  fix k t' assume t': "tm' k = Some t'"
  from shape_lookup [OF assms(2) [symmetric] t'] obtain t where t: "tm k = Some t"
    "t\<lparr>completed := None\<rparr> = t'\<lparr>completed := None\<rparr>" by blast
  note f = shape_fields [OF t(2)]
  from assms(1) t(1) have w: "k \<noteq> [] \<and> id_t t = Some k \<and> title t \<noteq> None \<and> description t \<noteq> None \<and>
        completed t \<noteq> None \<and> children t \<noteq> None \<and> parentId t \<noteq> None \<and> createdAt t \<noteq> None"
    unfolding well_typed_def by blast
  from assms(3) t' have c: "completed t' \<noteq> None" unfolding flags_defined_def by blast
  show "k \<noteq> []" using w by simp
  show "id_t t' = Some k" using w f by simp
  show "title t' \<noteq> None" using w f by simp
  show "description t' \<noteq> None" using w f by simp
  show "completed t' \<noteq> None" by (rule c)
  show "children t' \<noteq> None" using w f by simp
  show "parentId t' \<noteq> None" using w f by simp
  show "createdAt t' \<noteq> None" using w f by simp
qed

lemma well_typed_flags: "well_typed tm \<Longrightarrow> flags_defined tm"
  unfolding well_typed_def flags_defined_def by blast

subsection \<open>Views under a change of one completion flag\<close>

lemma childrenOf_upd_completed [simp]:
  "tm k = Some t \<Longrightarrow> childrenOf (tm(k \<mapsto> t\<lparr>completed := x\<rparr>)) = childrenOf tm"
  using shape_childrenOf [of "tm(k \<mapsto> t\<lparr>completed := x\<rparr>)" tm] by simp

lemma parentOf_upd_completed [simp]:
  "tm k = Some t \<Longrightarrow> parentOf (tm(k \<mapsto> t\<lparr>completed := x\<rparr>)) = parentOf tm"
  using shape_parentOf [of "tm(k \<mapsto> t\<lparr>completed := x\<rparr>)" tm] by simp

lemma isDone_upd_completed [simp]:
  "isDone (tm(k \<mapsto> t\<lparr>completed := Some b\<rparr>)) j = (if j = k then b else isDone tm j)"
  by (simp add: isDone_def js_true_def)

lemma flags_defined_upd [simp]:
  "flags_defined tm \<Longrightarrow> flags_defined (tm(k \<mapsto> t\<lparr>completed := Some b\<rparr>))"
  by (simp add: flags_defined_def)

lemma childrenOf_Some: "tm k = Some t \<Longrightarrow> children t = Some cs \<Longrightarrow> childrenOf tm k = cs"
  by (simp add: childrenOf_def)

lemma childrenOf_None [simp]: "tm k = None \<Longrightarrow> childrenOf tm k = []"
  by (simp add: childrenOf_def)

lemma parentOf_Some: "tm k = Some t \<Longrightarrow> parentId t = Some p \<Longrightarrow> parentOf tm k = p"
  by (simp add: parentOf_def)

lemma parentOf_None [simp]: "tm k = None \<Longrightarrow> parentOf tm k = None"
  by (simp add: parentOf_def)

lemma isDone_Some: "tm k = Some t \<Longrightarrow> isDone tm k = js_true (completed t)"
  by (simp add: isDone_def)

lemma every_completed_eq:
  "\<forall>c \<in> set cs. c \<in> dom tm \<Longrightarrow> every_completed tm cs = Inr (\<forall>c \<in> set cs. isDone tm c)"
  by (induction cs) (auto simp: isDone_def)

subsection \<open>Forcing the flags of a set of tasks\<close>

lemma shape_force [simp]: "shape (force S v tm) = shape tm"
  by (auto simp: shape_def force_def fun_eq_iff option.map_comp comp_def)

lemma force_force [simp]: "force S v (force S' v tm) = force (S \<union> S') v tm"
  by (auto simp: force_def fun_eq_iff option.map_comp comp_def)

lemma force_upd: "tm k = Some t \<Longrightarrow> tm(k \<mapsto> t\<lparr>completed := Some v\<rparr>) = force {k} v tm"
  by (auto simp: force_def fun_eq_iff)

lemma force_absent: "tm k = None \<Longrightarrow> force {k} v tm = tm"
  by (auto simp: force_def fun_eq_iff)

lemma isDone_force: "isDone (force S v tm) k = (if k \<in> S \<and> k \<in> dom tm then v else isDone tm k)"
  by (auto simp: isDone_def force_def js_true_def split: option.splits)

lemma flags_defined_force: "flags_defined tm \<Longrightarrow> flags_defined (force S v tm)"
  by (auto simp: flags_defined_def force_def split: if_splits)

lemma force_outside: "k \<notin> S \<Longrightarrow> force S v tm k = tm k"
  by (simp add: force_def)

lemma dom_force [simp]: "dom (force S v tm) = dom tm"
  using shape_dom [of "force S v tm" tm] by simp

lemma childrenOf_force [simp]: "childrenOf (force S v tm) = childrenOf tm"
  using shape_childrenOf [of "force S v tm" tm] by simp

lemma parentOf_force [simp]: "parentOf (force S v tm) = parentOf tm"
  using shape_parentOf [of "force S v tm" tm] by simp

subsection \<open>Subtrees\<close>

lemma subtree_unfold: "subtree tm i = insert i (\<Union>c \<in> set (childrenOf tm i). subtree tm c)"
proof (intro set_eqI iffI)
  fix d assume "d \<in> subtree tm i"
  then have "(i, d) \<in> (child_rel tm)\<^sup>*" by (simp add: subtree_def)
  then show "d \<in> insert i (\<Union>c \<in> set (childrenOf tm i). subtree tm c)"
  proof (cases rule: converse_rtranclE)
    case base
    then show ?thesis by simp
  next
    case (step c)
    then show ?thesis by (auto simp: subtree_def child_rel_def)
  qed
next
  fix d assume "d \<in> insert i (\<Union>c \<in> set (childrenOf tm i). subtree tm c)"
  then show "d \<in> subtree tm i"
    by (auto simp: subtree_def child_rel_def intro: converse_rtrancl_into_rtrancl)
qed

lemma subtree_self [simp]: "i \<in> subtree tm i"
  by (simp add: subtree_def)

lemma subtree_descendants: "subtree tm i = insert i (descendants tm i)"
  by (auto simp: subtree_def descendants_def rtrancl_eq_or_trancl)

lemma shape_subtree: "shape tm = shape tm' \<Longrightarrow> subtree tm = subtree tm'"
  using shape_child_rel [of tm tm'] by (simp add: subtree_def fun_eq_iff)

subsection \<open>\<^verbatim>\<open>updateDescendants\<close> forces the flags of the subtree\<close>

lemma children_defined_shape:
  assumes "shape tm = shape tm'" "children_defined tm"
  shows "children_defined tm'"
  unfolding children_defined_def
proof (intro allI impI)
  fix k t' assume "tm' k = Some t'"
  from shape_lookup [OF assms(1) [symmetric] this] obtain t where "tm k = Some t"
    "t\<lparr>completed := None\<rparr> = t'\<lparr>completed := None\<rparr>" by blast
  with assms(2) shape_fields(4) [OF this(2)] show "children t' \<noteq> None"
    unfolding children_defined_def by metis
qed

lemma forEach_updateDescendants:
  assumes "\<And>c tm. c \<in> set cs \<Longrightarrow> shape tm = sh \<Longrightarrow>
             returns (\<lambda>n. updateDescendants n c v tm) (force (S c) v tm)"
    and "shape tm = sh"
  shows "returns (\<lambda>n. forEach (\<lambda>c tc. updateDescendants n c v tc) cs tm)
           (force (\<Union>c \<in> set cs. S c) v tm)"
  using assms
proof (induction cs arbitrary: tm)
  case Nil
  have "force {} v tm = tm" by (simp add: force_def)
  then show ?case using returns_const [of tm] by simp
next
  case (Cons c cs)
  have 1: "returns (\<lambda>n. updateDescendants n c v tm) (force (S c) v tm)"
    using Cons.prems by simp
  have 2: "returns (\<lambda>n. forEach (\<lambda>c tc. updateDescendants n c v tc) cs (force (S c) v tm))
             (force (\<Union>c \<in> set cs. S c) v (force (S c) v tm))"
    using Cons.prems by (intro Cons.IH) simp_all
  have 3: "(\<Union>c \<in> set cs. S c) \<union> S c = (\<Union>c \<in> set (c # cs). S c)" by auto
  have "returns (\<lambda>n. bind_r (updateDescendants n c v tm)
                 (forEach (\<lambda>c tc. updateDescendants n c v tc) cs))
          (force (\<Union>c \<in> set cs. S c) v (force (S c) v tm))"
    by (rule returns_bind [where g = "\<lambda>n. forEach (\<lambda>c tc. updateDescendants n c v tc) cs", OF 1 2])
  then show ?case unfolding force_force 3 by simp
qed

lemma updateDescendants_returns:
  assumes wf: "wf ((child_rel tm0)\<inverse>)" and cd: "children_defined tm0"
    and cl: "\<forall>k. \<forall>c \<in> set (childrenOf tm0 k). c \<in> dom tm0"
  shows "shape tm = shape tm0 \<Longrightarrow> i \<in> dom tm0 \<Longrightarrow>
         returns (\<lambda>n. updateDescendants n i v tm) (force (subtree tm0 i) v tm)"
  using wf
proof (induction i arbitrary: tm rule: wf_induct_rule)
  case (less i)
  have "dom tm = dom tm0" using less.prems(1) by (rule shape_dom)
  with less.prems(2) have "i \<in> dom tm" by simp
  then obtain t where Some: "tm i = Some t" by blast
  show ?case
  proof -
    have "children_defined tm" using less.prems(1) [symmetric] cd by (rule children_defined_shape)
    with Some have "children t \<noteq> None" unfolding children_defined_def by blast
    then obtain cs where cs: "children t = Some cs" by blast
    have "childrenOf tm i = cs" using Some cs by (rule childrenOf_Some)
    moreover have "childrenOf tm = childrenOf tm0" using less.prems(1) by (rule shape_childrenOf)
    ultimately have cs0: "childrenOf tm0 i = cs" by metis
    let ?tm1 = "tm(i \<mapsto> t\<lparr>completed := Some v\<rparr>)"
    have tm1: "?tm1 = force {i} v tm" using Some by (rule force_upd)
    have "returns (\<lambda>n. forEach (\<lambda>c tc. updateDescendants n c v tc) cs ?tm1)
            (force (\<Union>c \<in> set cs. subtree tm0 c) v ?tm1)"
    proof (rule forEach_updateDescendants [where sh = "shape tm0"])
      fix c tm' assume c: "c \<in> set cs" and sh: "shape tm' = shape tm0"
      from c cs0 have r: "(c, i) \<in> (child_rel tm0)\<inverse>" by (simp add: child_rel_def)
      from c cs0 cl have d: "c \<in> dom tm0" by blast
      from r sh d show "returns (\<lambda>n. updateDescendants n c v tm') (force (subtree tm0 c) v tm')"
        by (rule less.IH)
    next
      show "shape ?tm1 = shape tm0" using Some less.prems(1) by simp
    qed
    moreover have "force (\<Union>c \<in> set cs. subtree tm0 c) v ?tm1 = force (subtree tm0 i) v tm"
    proof -
      have "subtree tm0 i = (\<Union>c \<in> set cs. subtree tm0 c) \<union> {i}"
        using subtree_unfold [of tm0 i] cs0 by auto
      then show ?thesis unfolding tm1 force_force by simp
    qed
    moreover have "updateDescendants (Suc n) i v tm
        = forEach (\<lambda>c tc. updateDescendants n c v tc) cs ?tm1" for n
      using Some cs by simp
    ultimately have "returns (\<lambda>n. updateDescendants (Suc n) i v tm) (force (subtree tm0 i) v tm)"
      by simp
    then show ?thesis by (rule returns_Suc)
  qed
qed

subsection \<open>\<^verbatim>\<open>collect\<close> gathers the subtree\<close>

lemma set_set_add [simp]: "set (set_add x xs) = insert x (set xs)"
  by (auto simp: set_add_def)

lemma forEach_collect:
  assumes "\<And>c acc. c \<in> set cs \<Longrightarrow>
             \<exists>ids. returns (\<lambda>n. collect n tm c acc) ids \<and> set ids = set acc \<union> S c"
  shows "\<exists>ids. returns (\<lambda>n. forEach (\<lambda>c ids. collect n tm c ids) cs acc) ids \<and>
               set ids = set acc \<union> (\<Union>c \<in> set cs. S c)"
  using assms
proof (induction cs arbitrary: acc)
  case Nil
  then show ?case using returns_const [of acc] by auto
next
  case (Cons c cs)
  from Cons.prems [of c acc] obtain ids1 where 1: "returns (\<lambda>n. collect n tm c acc) ids1"
    "set ids1 = set acc \<union> S c" by auto
  from Cons.IH [of ids1] Cons.prems obtain ids2 where
    2: "returns (\<lambda>n. forEach (\<lambda>c ids. collect n tm c ids) cs ids1) ids2"
    "set ids2 = set ids1 \<union> (\<Union>c \<in> set cs. S c)" by auto
  have "returns (\<lambda>n. bind_r (collect n tm c acc) (forEach (\<lambda>c ids. collect n tm c ids) cs)) ids2"
    by (rule returns_bind [where g = "\<lambda>n. forEach (\<lambda>c ids. collect n tm c ids) cs", OF 1(1) 2(1)])
  with 1(2) 2(2) show ?case by auto
qed

lemma collect_returns:
  assumes wf: "wf ((child_rel tm)\<inverse>)" and cd: "children_defined tm"
    and cl: "\<forall>k. \<forall>c \<in> set (childrenOf tm k). c \<in> dom tm"
  shows "i \<in> dom tm \<Longrightarrow>
         \<exists>ids. returns (\<lambda>n. collect n tm i acc) ids \<and> set ids = set acc \<union> subtree tm i"
  using wf
proof (induction i arbitrary: acc rule: wf_induct_rule)
  case (less i)
  from less.prems obtain t where Some: "tm i = Some t" by blast
  show ?case
  proof -
    from Some cd obtain cs where cs: "children t = Some cs" unfolding children_defined_def by blast
    have cs0: "childrenOf tm i = cs" using Some cs by (rule childrenOf_Some)
    have "\<exists>ids. returns (\<lambda>n. forEach (\<lambda>c ids. collect n tm c ids) cs (set_add i acc)) ids \<and>
               set ids = set (set_add i acc) \<union> (\<Union>c \<in> set cs. subtree tm c)"
    proof (rule forEach_collect)
      fix c acc' assume "c \<in> set cs"
      with cs0 have "(c, i) \<in> (child_rel tm)\<inverse>" by (simp add: child_rel_def)
      moreover from \<open>c \<in> set cs\<close> cs0 cl have "c \<in> dom tm" by blast
      ultimately
      show "\<exists>ids. returns (\<lambda>n. collect n tm c acc') ids \<and> set ids = set acc' \<union> subtree tm c"
        by (rule less.IH)
    qed
    then obtain ids where ids: "returns (\<lambda>n. forEach (\<lambda>c ids. collect n tm c ids) cs (set_add i acc)) ids"
      "set ids = set (set_add i acc) \<union> (\<Union>c \<in> set cs. subtree tm c)" by blast
    from ids(1) have "returns (\<lambda>n. collect (Suc n) tm i acc) ids" using Some cs by simp
    then have "returns (\<lambda>n. collect n tm i acc) ids" by (rule returns_Suc)
    moreover have "set ids = set acc \<union> subtree tm i"
      using ids(2) subtree_unfold [of tm i] cs0 by auto
    ultimately show ?thesis by blast
  qed
qed

lemma fold_delete: "fold (\<lambda>i tc. tc(i := None)) ids tm = tm |` (- set ids)"
proof (induction ids arbitrary: tm)
  case Nil
  then show ?case by simp
next
  case (Cons i ids)
  have "(tm(i := None)) |` (- set ids) = tm |` (- set (i # ids))"
    by (auto simp: restrict_map_def fun_eq_iff)
  moreover have "fold (\<lambda>i tc. tc(i := None)) (i # ids) tm
                 = fold (\<lambda>i tc. tc(i := None)) ids (tm(i := None))" by simp
  ultimately show ?case using Cons.IH [of "tm(i := None)"] by metis
qed

section \<open>The upward loops\<close>

lemma js_error_eq [simp]: "((e::js_error) = e') = True"
  by (cases e; cases e') simp

lemma throw_eq [simp]: "(throw e = (throw e' :: 'a result)) = True"
  by (simp add: throw_def)

lemma addTask_propagate_up_loop:
  "addTask_propagate n tm q = up_loop addTask_decision n tm q"
  by (induction n arbitrary: tm q)
     (auto simp: addTask_decision_def split: option.splits)

lemma toggleTask_propagate_up_loop:
  "toggleTask_propagate n nc tm q = up_loop (toggleTask_decision nc) n tm q"
  by (induction n arbitrary: tm q)
     (auto simp: toggleTask_decision_def split: option.splits sum.splits)

lemma deleteTask_propagate_up_loop:
  "deleteTask_propagate n tm q = up_loop deleteTask_decision n tm q"
  by (induction n arbitrary: tm q)
     (auto simp: deleteTask_decision_def split: option.splits sum.splits)

subsection \<open>What the loops need of the task map\<close>

lemma referential_integrity_shape:
  "referential_integrity tm \<Longrightarrow> shape tm = shape tm' \<Longrightarrow> referential_integrity tm'"
  using shape_childrenOf [of tm tm'] shape_parentOf [of tm tm'] shape_dom [of tm tm']
  by (simp add: referential_integrity_def)

lemma back_reference_shape:
  "back_reference tm \<Longrightarrow> shape tm = shape tm' \<Longrightarrow> back_reference tm'"
  using shape_childrenOf [of tm tm'] shape_parentOf [of tm tm']
  by (simp add: back_reference_def)

lemma acyclicity_shape:
  "acyclicity tm \<Longrightarrow> shape tm = shape tm' \<Longrightarrow> acyclicity tm'"
  using shape_parent_rel [of tm tm'] by (simp add: acyclicity_def)

lemma upward_ok_shape:
  assumes "upward_ok tm" "shape tm = shape tm'" "flags_defined tm'"
  shows "upward_ok tm'"
proof -
  have "well_typed tm'" using assms well_typed_shape [of tm tm'] by (simp add: upward_ok_def)
  moreover have "referential_integrity tm'"
    using assms referential_integrity_shape [of tm tm'] by (simp add: upward_ok_def)
  moreover have "acyclicity tm'" using assms acyclicity_shape [of tm tm'] by (simp add: upward_ok_def)
  moreover have "\<forall>p c. c \<in> set (childrenOf tm' p) \<longrightarrow> parentOf tm' c = Some p"
    using assms(1) shape_childrenOf [OF assms(2)] shape_parentOf [OF assms(2)]
    by (simp add: upward_ok_def)
  ultimately show ?thesis by (simp add: upward_ok_def)
qed

lemma upward_ok_upd:
  assumes "upward_ok tm" "tm c = Some t"
  shows "upward_ok (tm(c \<mapsto> t\<lparr>completed := Some b\<rparr>))"
proof (rule upward_ok_shape [OF assms(1)])
  show "shape tm = shape (tm(c \<mapsto> t\<lparr>completed := Some b\<rparr>))" using assms(2) by simp
  have "flags_defined tm" using assms(1) by (simp add: upward_ok_def well_typed_flags)
  then show "flags_defined (tm(c \<mapsto> t\<lparr>completed := Some b\<rparr>))" by simp
qed

lemma upward_ok_task:
  assumes "upward_ok tm" "tm c = Some t"
  shows "c \<noteq> []" "children t = Some (childrenOf tm c)" "parentId t = Some (parentOf tm c)"
    "completed t = Some (isDone tm c)"
    "every_completed tm (childrenOf tm c) = Inr (\<forall>ch \<in> set (childrenOf tm c). isDone tm ch)"
    "c \<notin> set (childrenOf tm c)" "parentOf tm c \<noteq> Some c"
proof -
  from assms have w: "c \<noteq> [] \<and> children t \<noteq> None \<and> parentId t \<noteq> None \<and> completed t \<noteq> None"
    unfolding upward_ok_def well_typed_def by blast
  show "c \<noteq> []" using w by simp
  show "children t = Some (childrenOf tm c)" using w assms(2) by (auto simp: childrenOf_def)
  show "parentId t = Some (parentOf tm c)" using w assms(2) by (auto simp: parentOf_def)
  show "completed t = Some (isDone tm c)" using w assms(2) by (auto simp: isDone_def js_true_def)
  have "\<forall>ch \<in> set (childrenOf tm c). ch \<in> dom tm"
    using assms(1) unfolding upward_ok_def referential_integrity_def by blast
  then show "every_completed tm (childrenOf tm c) = Inr (\<forall>ch \<in> set (childrenOf tm c). isDone tm ch)"
    by (rule every_completed_eq)
  have "wf (parent_rel tm)" using assms(1) by (simp add: upward_ok_def acyclicity_def)
  then have "(c, c) \<notin> parent_rel tm" by simp
  then show "parentOf tm c \<noteq> Some c" by (simp add: parent_rel_def)
  then show "c \<notin> set (childrenOf tm c)" using assms(1) unfolding upward_ok_def by blast
qed

lemma completion_ok_upd_other:
  assumes "upward_ok tm" "tm c = Some t" "k \<noteq> c" "parentOf tm c \<noteq> Some k"
  shows "completion_ok (tm(c \<mapsto> t\<lparr>completed := Some b\<rparr>)) k = completion_ok tm k"
proof -
  have "c \<notin> set (childrenOf tm k)" using assms(1,4) unfolding upward_ok_def by blast
  then have "\<forall>ch \<in> set (childrenOf tm k). ch \<noteq> c" by blast
  then show ?thesis using assms(2,3) by (auto simp: completion_ok_def)
qed

lemma up_loop_null: "returns (\<lambda>n. up_loop d n tm (Some None)) tm"
proof (rule returns_Suc)
  show "returns (\<lambda>n. up_loop d (Suc n) tm (Some None)) tm"
    using returns_const [of tm] by simp
qed

lemma up_loop_returns:
  fixes d :: "task_map \<Rightarrow> task option \<Rightarrow> decision" and I :: "task_map \<Rightarrow> string \<Rightarrow> bool"
    and B :: "bool set" and D :: "string set"
  assumes wf: "wf R"
    and stop0: "\<forall>tm c t. upward_ok tm \<longrightarrow> tm c = Some t \<longrightarrow> I tm c \<longrightarrow> d tm (Some t) = Stop
                \<longrightarrow> completion_ok tm c"
    and nothrow0: "\<forall>tm c t. upward_ok tm \<longrightarrow> tm c = Some t \<longrightarrow> d tm (Some t) \<noteq> Throw"
    and cont0: "\<forall>tm c t b. upward_ok tm \<longrightarrow> tm c = Some t \<longrightarrow> I tm c \<longrightarrow> d tm (Some t) = Set b
                \<longrightarrow> completion_ok (tm(c \<mapsto> t\<lparr>completed := Some b\<rparr>)) c \<and> b \<in> B \<and>
                    (\<forall>p. parentOf tm c = Some p \<longrightarrow> completion_ok tm p \<longrightarrow>
                         I (tm(c \<mapsto> t\<lparr>completed := Some b\<rparr>)) p)"
  shows "parent_rel tm = R \<Longrightarrow> upward_ok tm \<Longrightarrow> c \<in> dom tm \<Longrightarrow> I tm c \<Longrightarrow>
         (\<forall>k. k \<notin> D \<longrightarrow> k \<noteq> c \<longrightarrow> completion_ok tm k) \<Longrightarrow> (\<forall>a. (a, c) \<in> R\<^sup>* \<longrightarrow> a \<notin> D) \<Longrightarrow>
         \<exists>tm'. returns (\<lambda>n. up_loop d n tm (Some (Some c))) tm' \<and> shape tm' = shape tm \<and>
               flags_defined tm' \<and> (\<forall>k. k \<notin> D \<longrightarrow> completion_ok tm' k) \<and>
               (\<forall>k. tm' k \<noteq> tm k \<longrightarrow> (k, c) \<in> R\<^sup>* \<and> isDone tm' k \<in> B)"
  using wf
proof (induction c arbitrary: tm rule: wf_induct_rule)
  case (less c)
  have stop: "\<And>tm c t. upward_ok tm \<Longrightarrow> tm c = Some t \<Longrightarrow> I tm c \<Longrightarrow> d tm (Some t) = Stop
                \<Longrightarrow> completion_ok tm c"
    using stop0 by blast
  have nothrow: "\<And>tm c t. upward_ok tm \<Longrightarrow> tm c = Some t \<Longrightarrow> d tm (Some t) \<noteq> Throw"
    using nothrow0 by blast
  have cont: "\<And>tm c t b. upward_ok tm \<Longrightarrow> tm c = Some t \<Longrightarrow> I tm c \<Longrightarrow> d tm (Some t) = Set b
                \<Longrightarrow> completion_ok (tm(c \<mapsto> t\<lparr>completed := Some b\<rparr>)) c \<and> b \<in> B \<and>
                    (\<forall>p. parentOf tm c = Some p \<longrightarrow> completion_ok tm p \<longrightarrow>
                         I (tm(c \<mapsto> t\<lparr>completed := Some b\<rparr>)) p)"
    using cont0 by blast
  note R = less.prems(1) and up = less.prems(2) and Ic = less.prems(4)
    and oks = less.prems(5) and anc = less.prems(6)
  obtain t where t: "tm c = Some t" using less.prems(3) by blast
  note ut = upward_ok_task [OF up t]
  have fd: "flags_defined tm" using up by (simp add: upward_ok_def well_typed_flags)
  have step: "up_loop d (Suc n) tm (Some (Some c)) =
      (case d tm (Some t) of Stop \<Rightarrow> ok tm | Throw \<Rightarrow> throw TypeError
       | Set b \<Rightarrow> up_loop d n (tm(c \<mapsto> t\<lparr>completed := Some b\<rparr>)) (Some (parentOf tm c)))" for n
    using t ut(1,3) by (simp split: decision.splits)
  show ?case
  proof (cases "d tm (Some t)")
    case Stop
    have "returns (\<lambda>n. up_loop d (Suc n) tm (Some (Some c))) tm"
      unfolding step Stop using returns_const [of tm] by simp
    then have r: "returns (\<lambda>n. up_loop d n tm (Some (Some c))) tm" by (rule returns_Suc)
    have "completion_ok tm c" using up t Ic Stop by (rule stop)
    with oks have "\<forall>k. k \<notin> D \<longrightarrow> completion_ok tm k" by blast
    with r fd show ?thesis by blast
  next
    case Throw
    with nothrow [OF up t] show ?thesis by simp
  next
    case (Set b)
    let ?tm1 = "tm(c \<mapsto> t\<lparr>completed := Some b\<rparr>)"
    from cont [OF up t Ic Set] have okc: "completion_ok ?tm1 c" and bB: "b \<in> B"
      and Ip: "\<And>p. parentOf tm c = Some p \<Longrightarrow> completion_ok tm p \<Longrightarrow> I ?tm1 p" by blast+
    have u1: "upward_ok ?tm1" using up t by (rule upward_ok_upd)
    have sh1: "shape ?tm1 = shape tm" using t by simp
    have R1: "parent_rel ?tm1 = R" using shape_parent_rel [OF sh1] R by simp
    have fd1: "flags_defined ?tm1" using fd by simp
    have others: "completion_ok ?tm1 k" if "k \<notin> D" "k \<noteq> c" "parentOf tm c \<noteq> Some k" for k
      using completion_ok_upd_other [OF up t that(2,3)] oks that(1,2) by simp
    have "\<exists>tm'. returns (\<lambda>n. up_loop d n ?tm1 (Some (parentOf tm c))) tm' \<and> shape tm' = shape ?tm1 \<and>
               flags_defined tm' \<and> (\<forall>k. k \<notin> D \<longrightarrow> completion_ok tm' k) \<and>
               (\<forall>k. tm' k \<noteq> ?tm1 k \<longrightarrow> (k, c) \<in> R\<^sup>* \<and> isDone tm' k \<in> B)"
    proof (cases "parentOf tm c")
      case None
      have "returns (\<lambda>n. up_loop d n ?tm1 (Some None)) ?tm1" by (rule up_loop_null)
      moreover have "\<forall>k. k \<notin> D \<longrightarrow> completion_ok ?tm1 k"
        using okc others None by (metis option.distinct(1))
      ultimately show ?thesis using fd1 None by (intro exI [of _ ?tm1]) simp
    next
      case (Some p)
      have pc: "(p, c) \<in> R" using Some R by (auto simp: parent_rel_def)
      have "p \<in> dom tm" using up Some unfolding upward_ok_def referential_integrity_def by blast
      then have pd: "p \<in> dom ?tm1" by simp
      have pnc: "p \<noteq> c" using ut(7) Some by auto
      have pD: "p \<notin> D" using anc pc by blast
      have "completion_ok tm p" using oks pD pnc by blast
      with Ip [OF Some] have I1: "I ?tm1 p" by simp
      have oks1: "\<forall>k. k \<notin> D \<longrightarrow> k \<noteq> p \<longrightarrow> completion_ok ?tm1 k"
        using okc others Some by (metis option.inject)
      have anc1: "\<forall>a. (a, p) \<in> R\<^sup>* \<longrightarrow> a \<notin> D"
        using anc pc by (meson rtrancl.rtrancl_into_rtrancl)
      from less.IH [OF pc R1 u1 pd I1 oks1 anc1]
      obtain tm' where tm': "returns (\<lambda>n. up_loop d n ?tm1 (Some (Some p))) tm'"
        "shape tm' = shape ?tm1" "flags_defined tm'" "\<forall>k. k \<notin> D \<longrightarrow> completion_ok tm' k"
        "\<forall>k. tm' k \<noteq> ?tm1 k \<longrightarrow> (k, p) \<in> R\<^sup>* \<and> isDone tm' k \<in> B" by blast
      have "\<forall>k. tm' k \<noteq> ?tm1 k \<longrightarrow> (k, c) \<in> R\<^sup>* \<and> isDone tm' k \<in> B"
        using tm'(5) pc by (meson rtrancl.rtrancl_into_rtrancl)
      with tm'(1-4) Some show ?thesis by (intro exI [of _ tm']) simp
    qed
    then obtain tm' where tm': "returns (\<lambda>n. up_loop d n ?tm1 (Some (parentOf tm c))) tm'"
        "shape tm' = shape ?tm1" "flags_defined tm'" "\<forall>k. k \<notin> D \<longrightarrow> completion_ok tm' k"
        "\<forall>k. tm' k \<noteq> ?tm1 k \<longrightarrow> (k, c) \<in> R\<^sup>* \<and> isDone tm' k \<in> B" by blast
    have "returns (\<lambda>n. up_loop d (Suc n) tm (Some (Some c))) tm'"
      unfolding step Set using tm'(1) by simp
    then have r: "returns (\<lambda>n. up_loop d n tm (Some (Some c))) tm'" by (rule returns_Suc)
    have frame: "(k, c) \<in> R\<^sup>* \<and> isDone tm' k \<in> B" if "tm' k \<noteq> tm k" for k
    proof (cases "tm' k = ?tm1 k")
      case False
      with tm'(5) show ?thesis by blast
    next
      case True
      with that have kc: "k = c" by (auto split: if_splits)
      with True have "isDone tm' k = b" by (simp add: isDone_def js_true_def)
      with kc bB show ?thesis by simp
    qed
    show ?thesis using r tm'(2,3,4) sh1 frame by (intro exI [of _ tm']) simp
  qed
qed

lemma up_loop_returns_opt:
  fixes d :: "task_map \<Rightarrow> task option \<Rightarrow> decision" and I :: "task_map \<Rightarrow> string \<Rightarrow> bool"
    and B :: "bool set" and D :: "string set"
  assumes stop: "\<And>tm c t. upward_ok tm \<Longrightarrow> tm c = Some t \<Longrightarrow> I tm c \<Longrightarrow> d tm (Some t) = Stop
                \<Longrightarrow> completion_ok tm c"
    and nothrow: "\<And>tm c t. upward_ok tm \<Longrightarrow> tm c = Some t \<Longrightarrow> d tm (Some t) \<noteq> Throw"
    and cont: "\<And>tm c t b. upward_ok tm \<Longrightarrow> tm c = Some t \<Longrightarrow> I tm c \<Longrightarrow> d tm (Some t) = Set b
                \<Longrightarrow> completion_ok (tm(c \<mapsto> t\<lparr>completed := Some b\<rparr>)) c \<and> b \<in> B \<and>
                    (\<forall>p. parentOf tm c = Some p \<longrightarrow> completion_ok tm p \<longrightarrow>
                         I (tm(c \<mapsto> t\<lparr>completed := Some b\<rparr>)) p)"
    and up: "upward_ok tm"
    and q: "\<forall>c. q = Some c \<longrightarrow> c \<in> dom tm \<and> I tm c \<and> (\<forall>a. (a, c) \<in> (parent_rel tm)\<^sup>* \<longrightarrow> a \<notin> D)"
    and oks: "\<forall>k. k \<notin> D \<longrightarrow> q \<noteq> Some k \<longrightarrow> completion_ok tm k"
  shows "\<exists>tm'. returns (\<lambda>n. up_loop d n tm (Some q)) tm' \<and> shape tm' = shape tm \<and>
               flags_defined tm' \<and> (\<forall>k. k \<notin> D \<longrightarrow> completion_ok tm' k) \<and>
               (\<forall>k. tm' k \<noteq> tm k \<longrightarrow>
                   (\<exists>c. q = Some c \<and> (k, c) \<in> (parent_rel tm)\<^sup>*) \<and> isDone tm' k \<in> B)"
proof (cases q)
  case None
  have "returns (\<lambda>n. up_loop d n tm (Some None)) tm" by (rule up_loop_null)
  moreover have "flags_defined tm" using up by (simp add: upward_ok_def well_typed_flags)
  moreover have "\<forall>k. k \<notin> D \<longrightarrow> completion_ok tm k" using oks None by simp
  ultimately show ?thesis using None by (intro exI [of _ tm]) simp
next
  case (Some c)
  have wf: "wf (parent_rel tm)" using up by (simp add: upward_ok_def acyclicity_def)
  have 1: "c \<in> dom tm" and 2: "I tm c" and 3: "\<forall>a. (a, c) \<in> (parent_rel tm)\<^sup>* \<longrightarrow> a \<notin> D"
    using q Some by simp_all
  have 4: "\<forall>k. k \<notin> D \<longrightarrow> k \<noteq> c \<longrightarrow> completion_ok tm k" using oks Some by simp
  have stop0: "\<forall>tm c t. upward_ok tm \<longrightarrow> tm c = Some t \<longrightarrow> I tm c \<longrightarrow> d tm (Some t) = Stop
                \<longrightarrow> completion_ok tm c"
    using stop by blast
  have nothrow0: "\<forall>tm c t. upward_ok tm \<longrightarrow> tm c = Some t \<longrightarrow> d tm (Some t) \<noteq> Throw"
    using nothrow by blast
  have cont0: "\<forall>tm c t b. upward_ok tm \<longrightarrow> tm c = Some t \<longrightarrow> I tm c \<longrightarrow> d tm (Some t) = Set b
                \<longrightarrow> completion_ok (tm(c \<mapsto> t\<lparr>completed := Some b\<rparr>)) c \<and> b \<in> B \<and>
                    (\<forall>p. parentOf tm c = Some p \<longrightarrow> completion_ok tm p \<longrightarrow>
                         I (tm(c \<mapsto> t\<lparr>completed := Some b\<rparr>)) p)"
    using cont by blast
  from up_loop_returns [where d = d and I = I and B = B and D = D, OF wf stop0 nothrow0 cont0 refl up 1 2 4 3]
  obtain tm' where tm': "returns (\<lambda>n. up_loop d n tm (Some (Some c))) tm'" "shape tm' = shape tm"
    "flags_defined tm'" "\<forall>k. k \<notin> D \<longrightarrow> completion_ok tm' k"
    "\<forall>k. tm' k \<noteq> tm k \<longrightarrow> (k, c) \<in> (parent_rel tm)\<^sup>* \<and> isDone tm' k \<in> B" by blast
  show ?thesis unfolding Some
  proof (intro exI [of _ tm'] conjI allI impI)
    fix k assume "tm' k \<noteq> tm k"
    with tm'(5) show "\<exists>c'. Some c = Some c' \<and> (k, c') \<in> (parent_rel tm)\<^sup>*" "isDone tm' k \<in> B"
      by auto
  qed (use tm' in blast)+
qed

lemma completion_ok_upd_self:
  assumes "upward_ok tm" "tm c = Some t"
  shows "completion_ok (tm(c \<mapsto> t\<lparr>completed := Some b\<rparr>)) c \<longleftrightarrow>
         (childrenOf tm c \<noteq> [] \<longrightarrow> (b \<longleftrightarrow> (\<forall>ch \<in> set (childrenOf tm c). isDone tm ch)))"
proof -
  have "\<forall>ch \<in> set (childrenOf tm c). ch \<noteq> c" using upward_ok_task(6) [OF assms] by blast
  then show ?thesis using assms(2) by (auto simp: completion_ok_def)
qed

lemma toggleTask_decision_True:
  assumes "upward_ok tm" "tm c = Some t"
  shows "toggleTask_decision True tm (Some t) =
    (if \<forall>ch \<in> set (childrenOf tm c). isDone tm ch then Set True
     else if isDone tm c then Set False else Stop)"
  using upward_ok_task(2,4,5) [OF assms] by (simp add: toggleTask_decision_def js_true_def)

lemma toggleTask_decision_False:
  assumes "upward_ok tm" "tm c = Some t"
  shows "toggleTask_decision False tm (Some t) = (if isDone tm c then Set False else Stop)"
  using upward_ok_task(4) [OF assms] by (simp add: toggleTask_decision_def js_true_def)

lemma addTask_decision_eq:
  assumes "upward_ok tm" "tm c = Some t"
  shows "addTask_decision tm (Some t) = (if isDone tm c then Set False else Stop)"
  using upward_ok_task(4) [OF assms] by (simp add: addTask_decision_def js_true_def)

lemma deleteTask_decision_eq:
  assumes "upward_ok tm" "tm c = Some t"
  shows "deleteTask_decision tm (Some t) =
    (if \<forall>ch \<in> set (childrenOf tm c). isDone tm ch then Set True else Stop)"
  using upward_ok_task(2,5) [OF assms] by (simp add: deleteTask_decision_def)

lemma toggle_up_True:
  assumes up: "upward_ok tm" and q: "\<forall>c. q = Some c \<longrightarrow> c \<in> dom tm"
    and oks: "\<forall>k. q \<noteq> Some k \<longrightarrow> completion_ok tm k"
  shows "\<exists>tm'. returns (\<lambda>n. toggleTask_propagate n True tm (Some q)) tm' \<and> shape tm' = shape tm \<and>
               flags_defined tm' \<and> completion_invariant tm' \<and>
               (\<forall>k. tm' k \<noteq> tm k \<longrightarrow> (\<exists>c. q = Some c \<and> (k, c) \<in> (parent_rel tm)\<^sup>*))"
proof -
  have "\<exists>tm'. returns (\<lambda>n. up_loop (toggleTask_decision True) n tm (Some q)) tm' \<and>
               shape tm' = shape tm \<and>
               flags_defined tm' \<and> (\<forall>k. k \<notin> {} \<longrightarrow> completion_ok tm' k) \<and>
               (\<forall>k. tm' k \<noteq> tm k \<longrightarrow>
                   (\<exists>c. q = Some c \<and> (k, c) \<in> (parent_rel tm)\<^sup>*) \<and> isDone tm' k \<in> UNIV)"
  proof (rule up_loop_returns_opt [where I = "\<lambda>tm c. True"])
    fix tm c t assume a: "upward_ok tm" "tm c = Some t" "toggleTask_decision True tm (Some t) = Stop"
    then show "completion_ok tm c"
      unfolding toggleTask_decision_True [OF a(1,2)]
      by (auto simp: completion_ok_def split: if_splits)
  next
    fix tm c t assume a: "upward_ok tm" "tm c = Some t"
    show "toggleTask_decision True tm (Some t) \<noteq> Throw"
      unfolding toggleTask_decision_True [OF a] by simp
  next
    fix tm c t b assume a: "upward_ok tm" "tm c = Some t" "toggleTask_decision True tm (Some t) = Set b"
    then show "completion_ok (tm(c \<mapsto> t\<lparr>completed := Some b\<rparr>)) c \<and> b \<in> UNIV \<and>
       (\<forall>p. parentOf tm c = Some p \<longrightarrow> completion_ok tm p \<longrightarrow> True)"
      unfolding toggleTask_decision_True [OF a(1,2)] completion_ok_upd_self [OF a(1,2)]
      by (auto split: if_splits)
  next
    show "upward_ok tm" by (rule up)
    show "\<forall>c. q = Some c \<longrightarrow> c \<in> dom tm \<and> True \<and> (\<forall>a. (a, c) \<in> (parent_rel tm)\<^sup>* \<longrightarrow> a \<notin> {})"
      using q by simp
    show "\<forall>k. k \<notin> {} \<longrightarrow> q \<noteq> Some k \<longrightarrow> completion_ok tm k" using oks by simp
  qed
  then show ?thesis
    unfolding toggleTask_propagate_up_loop completion_invariant_def by simp
qed

lemma up_False_generic:
  assumes dec: "\<And>tm c t. upward_ok tm \<Longrightarrow> tm c = Some t \<Longrightarrow>
                  d tm (Some t) = (if isDone tm c then Set False else Stop)"
    and up: "upward_ok tm" and br: "back_reference tm"
    and q: "\<forall>c. q = Some c \<longrightarrow> c \<in> dom tm \<and> (\<exists>ch \<in> set (childrenOf tm c). \<not> isDone tm ch)"
    and oks: "\<forall>k. q \<noteq> Some k \<longrightarrow> completion_ok tm k"
  shows "\<exists>tm'. returns (\<lambda>n. up_loop d n tm (Some q)) tm' \<and> shape tm' = shape tm \<and>
               flags_defined tm' \<and> completion_invariant tm' \<and>
               (\<forall>k. tm' k \<noteq> tm k \<longrightarrow>
                  (\<exists>c. q = Some c \<and> (k, c) \<in> (parent_rel tm)\<^sup>*) \<and> \<not> isDone tm' k)"
proof -
  let ?I = "\<lambda>tm c. back_reference tm \<and> (\<exists>ch \<in> set (childrenOf tm c). \<not> isDone tm ch)"
  have "\<exists>tm'. returns (\<lambda>n. up_loop d n tm (Some q)) tm' \<and>
               shape tm' = shape tm \<and>
               flags_defined tm' \<and> (\<forall>k. k \<notin> {} \<longrightarrow> completion_ok tm' k) \<and>
               (\<forall>k. tm' k \<noteq> tm k \<longrightarrow>
                   (\<exists>c. q = Some c \<and> (k, c) \<in> (parent_rel tm)\<^sup>*) \<and> isDone tm' k \<in> {False})"
  proof (rule up_loop_returns_opt [where I = ?I])
    fix tm c t assume a: "upward_ok tm" "tm c = Some t" "?I tm c" "d tm (Some t) = Stop"
    then show "completion_ok tm c"
      unfolding dec [OF a(1,2)] by (auto simp: completion_ok_def split: if_splits)
  next
    fix tm c t assume a: "upward_ok tm" "tm c = Some t"
    show "d tm (Some t) \<noteq> Throw" unfolding dec [OF a] by simp
  next
    fix tm c t b assume a: "upward_ok tm" "tm c = Some t" "?I tm c" "d tm (Some t) = Set b"
    let ?tm1 = "tm(c \<mapsto> t\<lparr>completed := Some b\<rparr>)"
    from a(4) have b: "b = False" unfolding dec [OF a(1,2)] by (auto split: if_splits)
    have 1: "completion_ok ?tm1 c"
      unfolding completion_ok_upd_self [OF a(1,2)] using a(3) b by auto
    have sh: "shape tm = shape ?tm1" using a(2) by simp
    have "back_reference tm" using a(3) by simp
    then have br1: "back_reference ?tm1" using sh by (rule back_reference_shape)
    have 2: "?I ?tm1 p" if "parentOf tm c = Some p" for p
    proof -
      have "c \<in> set (childrenOf tm p)" using a(3) that unfolding back_reference_def by blast
      moreover have "\<not> isDone ?tm1 c" using b by simp
      ultimately show ?thesis using br1 a(2) by auto
    qed
    show "completion_ok ?tm1 c \<and> b \<in> {False} \<and>
       (\<forall>p. parentOf tm c = Some p \<longrightarrow> completion_ok tm p \<longrightarrow> ?I ?tm1 p)"
      using 1 2 b by blast
  next
    show "upward_ok tm" by (rule up)
    show "\<forall>c. q = Some c \<longrightarrow> c \<in> dom tm \<and> ?I tm c \<and> (\<forall>a. (a, c) \<in> (parent_rel tm)\<^sup>* \<longrightarrow> a \<notin> {})"
      using q br by simp
    show "\<forall>k. k \<notin> {} \<longrightarrow> q \<noteq> Some k \<longrightarrow> completion_ok tm k" using oks by simp
  qed
  then show ?thesis unfolding completion_invariant_def by simp
qed

lemma toggle_up_False:
  assumes "upward_ok tm" "back_reference tm"
    and "\<forall>c. q = Some c \<longrightarrow> c \<in> dom tm \<and> (\<exists>ch \<in> set (childrenOf tm c). \<not> isDone tm ch)"
    and "\<forall>k. q \<noteq> Some k \<longrightarrow> completion_ok tm k"
  shows "\<exists>tm'. returns (\<lambda>n. toggleTask_propagate n False tm (Some q)) tm' \<and> shape tm' = shape tm \<and>
               flags_defined tm' \<and> completion_invariant tm' \<and>
               (\<forall>k. tm' k \<noteq> tm k \<longrightarrow>
                  (\<exists>c. q = Some c \<and> (k, c) \<in> (parent_rel tm)\<^sup>*) \<and> \<not> isDone tm' k)"
  unfolding toggleTask_propagate_up_loop
  using toggleTask_decision_False assms by (rule up_False_generic)

lemma addTask_up:
  assumes "upward_ok tm" "back_reference tm"
    and "\<forall>c. q = Some c \<longrightarrow> c \<in> dom tm \<and> (\<exists>ch \<in> set (childrenOf tm c). \<not> isDone tm ch)"
    and "\<forall>k. q \<noteq> Some k \<longrightarrow> completion_ok tm k"
  shows "\<exists>tm'. returns (\<lambda>n. addTask_propagate n tm (Some q)) tm' \<and> shape tm' = shape tm \<and>
               flags_defined tm' \<and> completion_invariant tm' \<and>
               (\<forall>k. tm' k \<noteq> tm k \<longrightarrow>
                  (\<exists>c. q = Some c \<and> (k, c) \<in> (parent_rel tm)\<^sup>*) \<and> \<not> isDone tm' k)"
  unfolding addTask_propagate_up_loop
  using addTask_decision_eq assms by (rule up_False_generic)

lemma delete_up:
  assumes up: "upward_ok tm" and c: "c \<in> dom tm"
    and Ic: "isDone tm c \<longrightarrow> (\<forall>ch \<in> set (childrenOf tm c). isDone tm ch)"
    and anc: "\<forall>a. (a, c) \<in> (parent_rel tm)\<^sup>* \<longrightarrow> a \<notin> D"
    and oks: "\<forall>k. k \<notin> D \<longrightarrow> k \<noteq> c \<longrightarrow> completion_ok tm k"
  shows "\<exists>tm'. returns (\<lambda>n. deleteTask_propagate n tm (Some (Some c))) tm' \<and> shape tm' = shape tm \<and>
               flags_defined tm' \<and> (\<forall>k. k \<notin> D \<longrightarrow> completion_ok tm' k) \<and>
               (\<forall>k. tm' k \<noteq> tm k \<longrightarrow> (k, c) \<in> (parent_rel tm)\<^sup>* \<and> isDone tm' k)"
proof -
  let ?I = "\<lambda>tm c. isDone tm c \<longrightarrow> (\<forall>ch \<in> set (childrenOf tm c). isDone tm ch)"
  have "\<exists>tm'. returns (\<lambda>n. up_loop deleteTask_decision n tm (Some (Some c))) tm' \<and>
               shape tm' = shape tm \<and>
               flags_defined tm' \<and> (\<forall>k. k \<notin> D \<longrightarrow> completion_ok tm' k) \<and>
               (\<forall>k. tm' k \<noteq> tm k \<longrightarrow>
                   (\<exists>c'. Some c = Some c' \<and> (k, c') \<in> (parent_rel tm)\<^sup>*) \<and> isDone tm' k \<in> {True})"
  proof (rule up_loop_returns_opt [where I = ?I])
    fix tm c t assume a: "upward_ok tm" "tm c = Some t" "?I tm c" "deleteTask_decision tm (Some t) = Stop"
    then show "completion_ok tm c"
      unfolding deleteTask_decision_eq [OF a(1,2)] by (auto simp: completion_ok_def split: if_splits)
  next
    fix tm c t assume a: "upward_ok tm" "tm c = Some t"
    show "deleteTask_decision tm (Some t) \<noteq> Throw" unfolding deleteTask_decision_eq [OF a] by simp
  next
    fix tm c t b assume a: "upward_ok tm" "tm c = Some t" "?I tm c" "deleteTask_decision tm (Some t) = Set b"
    let ?tm1 = "tm(c \<mapsto> t\<lparr>completed := Some b\<rparr>)"
    from a(4) have b: "b = True" "\<forall>ch \<in> set (childrenOf tm c). isDone tm ch"
      unfolding deleteTask_decision_eq [OF a(1,2)] by (auto split: if_splits)
    have 1: "completion_ok ?tm1 c"
      unfolding completion_ok_upd_self [OF a(1,2)] using b by auto
    have 2: "?I ?tm1 p" if "parentOf tm c = Some p" "completion_ok tm p" for p
    proof -
      have "p \<noteq> c" using upward_ok_task(7) [OF a(1,2)] that(1) by auto
      then show ?thesis using that(2) a(2) b(1) by (auto simp: completion_ok_def)
    qed
    show "completion_ok ?tm1 c \<and> b \<in> {True} \<and>
       (\<forall>p. parentOf tm c = Some p \<longrightarrow> completion_ok tm p \<longrightarrow> ?I ?tm1 p)"
      using 1 2 b by blast
  next
    show "upward_ok tm" by (rule up)
    show "\<forall>c'. Some c = Some c' \<longrightarrow> c' \<in> dom tm \<and> ?I tm c' \<and> (\<forall>a. (a, c') \<in> (parent_rel tm)\<^sup>* \<longrightarrow> a \<notin> D)"
      using c Ic anc by simp
    show "\<forall>k. k \<notin> D \<longrightarrow> Some c \<noteq> Some k \<longrightarrow> completion_ok tm k" using oks by simp
  qed
  then show ?thesis unfolding deleteTask_propagate_up_loop by simp
qed

section \<open>Well-formed task maps\<close>

lemma wf_state_struct:
  "wf_state s \<longleftrightarrow> struct_ok (tasks s) \<and> completion_invariant (tasks s) \<and> root_set_consistency s"
  by (auto simp: wf_state_def struct_ok_def)

lemma struct_ok_upward: "struct_ok tm \<Longrightarrow> upward_ok tm"
  by (simp add: struct_ok_def upward_ok_def back_reference_def)

lemma struct_ok_shape:
  assumes "struct_ok tm" "shape tm = shape tm'" "flags_defined tm'"
  shows "struct_ok tm'"
  using assms well_typed_shape [of tm tm'] referential_integrity_shape [of tm tm']
    back_reference_shape [of tm tm'] acyclicity_shape [of tm tm']
  by (simp add: struct_ok_def)

lemma root_set_shape:
  assumes "root_set_consistency s" "shape (tasks s) = shape tm'"
  shows "root_set_consistency (s\<lparr>tasks := tm'\<rparr>)"
  using assms shape_dom [OF assms(2)] shape_parentOf [OF assms(2)]
  by (simp add: root_set_consistency_def)

lemma wf_state_shape:
  assumes "wf_state s" "shape (tasks s) = shape tm'" "flags_defined tm'" "completion_invariant tm'"
  shows "wf_state (s\<lparr>tasks := tm'\<rparr>)"
  using assms struct_ok_shape [of "tasks s" tm'] root_set_shape [of s tm']
  by (simp add: wf_state_struct)

lemma child_rel_parent_rel: "back_reference tm \<Longrightarrow> child_rel tm = parent_rel tm"
  by (auto simp: back_reference_def child_rel_def parent_rel_def)

lemma parent_rel_dom:
  assumes "referential_integrity tm"
  shows "parent_rel tm \<subseteq> dom tm \<times> dom tm"
proof
  fix x assume "x \<in> parent_rel tm"
  then obtain p c where x: "x = (p, c)" "parentOf tm c = Some p" by (auto simp: parent_rel_def)
  then have "c \<in> dom tm" by (auto simp: parentOf_def split: option.splits)
  moreover have "p \<in> dom tm" using assms x(2) unfolding referential_integrity_def by blast
  ultimately show "x \<in> dom tm \<times> dom tm" using x(1) by simp
qed

lemma struct_ok_wf_child:
  assumes "struct_ok tm"
  shows "wf ((child_rel tm)\<inverse>)"
proof -
  have "finite (dom tm \<times> dom tm)" using assms by (simp add: struct_ok_def well_typed_def)
  moreover have "parent_rel tm \<subseteq> dom tm \<times> dom tm"
    using assms by (simp add: struct_ok_def parent_rel_dom)
  ultimately have "finite (parent_rel tm)" by (rule rev_finite_subset)
  moreover have "acyclic (parent_rel tm)"
    using assms by (simp add: struct_ok_def acyclicity_def wf_acyclic)
  ultimately have "wf ((parent_rel tm)\<inverse>)" by (rule finite_acyclic_wf_converse)
  then show ?thesis using assms by (simp add: struct_ok_def child_rel_parent_rel)
qed

lemma struct_ok_children_defined: "struct_ok tm \<Longrightarrow> children_defined tm"
  unfolding struct_ok_def well_typed_def children_defined_def by blast

lemma struct_ok_children_closed:
  "struct_ok tm \<Longrightarrow> \<forall>k. \<forall>c \<in> set (childrenOf tm k). c \<in> dom tm"
  unfolding struct_ok_def referential_integrity_def by blast

lemma struct_ok_acyclic: "struct_ok tm \<Longrightarrow> acyclic (parent_rel tm)"
  by (simp add: struct_ok_def acyclicity_def wf_acyclic)

subsection \<open>Subtrees in a well-formed map\<close>

lemma subtree_child_closed:
  "k \<in> subtree tm x \<Longrightarrow> ch \<in> set (childrenOf tm k) \<Longrightarrow> ch \<in> subtree tm x"
  by (auto simp: subtree_def child_rel_def intro: rtrancl_into_rtrancl)

lemma subtree_parent:
  assumes "back_reference tm" "ch \<in> subtree tm x" "ch \<noteq> x" "ch \<in> set (childrenOf tm k)"
  shows "k \<in> subtree tm x"
proof -
  from assms(2) have "(x, ch) \<in> (child_rel tm)\<^sup>*" by (simp add: subtree_def)
  with assms(3) obtain y where y: "(x, y) \<in> (child_rel tm)\<^sup>*" "(y, ch) \<in> child_rel tm"
    by (metis rtranclE)
  then have "parentOf tm ch = Some y" using assms(1) by (simp add: child_rel_def back_reference_def)
  moreover have "parentOf tm ch = Some k" using assms(1,4) by (simp add: back_reference_def)
  ultimately have "y = k" by simp
  with y(1) show ?thesis by (simp add: subtree_def)
qed

lemma subtree_dom:
  assumes "referential_integrity tm" "x \<in> dom tm" "k \<in> subtree tm x"
  shows "k \<in> dom tm"
proof -
  from assms(3) have "(x, k) \<in> (child_rel tm)\<^sup>*" by (simp add: subtree_def)
  then show ?thesis
  proof (cases rule: rtranclE)
    case base
    then show ?thesis using assms(2) by simp
  next
    case (step y)
    then show ?thesis using assms(1) unfolding referential_integrity_def child_rel_def by blast
  qed
qed

lemma subtree_not_ancestor:
  assumes "struct_ok tm" "k \<in> subtree tm x" "(k, x) \<in> (parent_rel tm)\<^sup>+"
  shows False
proof -
  have "(x, k) \<in> (parent_rel tm)\<^sup>*"
    using assms(1,2) by (simp add: subtree_def struct_ok_def child_rel_parent_rel)
  with assms(3) have "(k, k) \<in> (parent_rel tm)\<^sup>+" by simp
  then show False using struct_ok_acyclic [OF assms(1)] by (simp add: acyclic_def)
qed

lemma ancestors_have_children:
  assumes "back_reference tm" "(a, x) \<in> (parent_rel tm)\<^sup>+"
  shows "childrenOf tm a \<noteq> []"
proof -
  from assms(2) obtain y where "(a, y) \<in> parent_rel tm" by (metis converse_tranclE)
  then have "y \<in> set (childrenOf tm a)" using assms(1) by (simp add: parent_rel_def back_reference_def)
  then show ?thesis by auto
qed

subsection \<open>The completion flags are determined from the leaves up\<close>

lemma completion_determined:
  assumes wf: "wf ((child_rel tm)\<inverse>)" and ch: "childrenOf tm' = childrenOf tm"
    and ci: "completion_invariant tm" "completion_invariant tm'"
    and out: "\<And>k. k \<notin> A \<Longrightarrow> isDone tm' k = isDone tm k"
    and inn: "\<And>k. k \<in> A \<Longrightarrow> childrenOf tm k \<noteq> []"
  shows "isDone tm' k = isDone tm k"
  using wf
proof (induction k rule: wf_induct_rule)
  case (less k)
  show ?case
  proof (cases "k \<in> A")
    case False
    then show ?thesis by (rule out)
  next
    case True
    then have ne: "childrenOf tm k \<noteq> []" by (rule inn)
    have "\<forall>c \<in> set (childrenOf tm k). isDone tm' c = isDone tm c"
      using less.IH by (simp add: child_rel_def)
    moreover have "isDone tm k \<longleftrightarrow> (\<forall>c \<in> set (childrenOf tm k). isDone tm c)"
      using ci(1) ne unfolding completion_invariant_def completion_ok_def by blast
    moreover have "isDone tm' k \<longleftrightarrow> (\<forall>c \<in> set (childrenOf tm k). isDone tm' c)"
      using ci(2) ne ch unfolding completion_invariant_def completion_ok_def by metis
    ultimately show ?thesis by blast
  qed
qed

section \<open>\<^verbatim>\<open>toggleTask\<close> on a well-formed state\<close>

lemma isDone_eq_lookup: "tm' k = tm k \<Longrightarrow> isDone tm' k = isDone tm k"
  by (simp add: isDone_def)

lemma force_completion_ok:
  assumes so: "struct_ok tm" and ci: "completion_invariant tm"
    and k: "parentOf tm x \<noteq> Some k"
  shows "completion_ok (force (subtree tm x) v tm) k"
proof (cases "k \<in> subtree tm x")
  case True
  have br: "back_reference tm" and ri: "referential_integrity tm"
    using so by (simp_all add: struct_ok_def)
  have "isDone (force (subtree tm x) v tm) ch = v" if "ch \<in> set (childrenOf tm k)" for ch
  proof -
    have "ch \<in> subtree tm x" using True that by (rule subtree_child_closed)
    moreover have "ch \<in> dom tm" using ri that unfolding referential_integrity_def by blast
    ultimately show ?thesis by (simp add: isDone_force)
  qed
  moreover have "isDone (force (subtree tm x) v tm) k = v" if "childrenOf tm k \<noteq> []"
  proof -
    have "k \<in> dom tm" using that by (auto simp: childrenOf_def split: option.splits)
    then show ?thesis using True by (simp add: isDone_force)
  qed
  ultimately show ?thesis by (auto simp: completion_ok_def)
next
  case False
  have br: "back_reference tm" using so by (simp add: struct_ok_def)
  have "isDone (force (subtree tm x) v tm) ch = isDone tm ch" if "ch \<in> set (childrenOf tm k)" for ch
  proof -
    have "ch \<notin> subtree tm x"
    proof
      assume a: "ch \<in> subtree tm x"
      show False
      proof (cases "ch = x")
        case True
        then have "parentOf tm x = Some k" using br that by (simp add: back_reference_def)
        with k show False by simp
      next
        case False
        with br a have "k \<in> subtree tm x" using that by (rule subtree_parent)
        with \<open>k \<notin> subtree tm x\<close> show False by simp
      qed
    qed
    then show ?thesis by (simp add: isDone_force)
  qed
  moreover have "isDone (force (subtree tm x) v tm) k = isDone tm k"
    using False by (simp add: isDone_force)
  moreover have "completion_ok tm k" using ci by (simp add: completion_invariant_def)
  ultimately show ?thesis by (auto simp: completion_ok_def)
qed

lemma toggleTask_unfold:
  assumes "tasks s x = Some t" "completed t = Some b" "parentId t = Some q"
  shows "toggleTask n s x =
     bind_r (updateDescendants n x (\<not> b) (tasks s))
       (\<lambda>tc. bind_r (toggleTask_propagate n (\<not> b) tc (Some q)) (\<lambda>tc'. ok (s\<lparr>tasks := tc'\<rparr>)))"
  using assms by (cases b) (simp_all add: toggleTask_def js_true_def)

lemma toggle_char:
  assumes wf: "wf_state s" and t: "tasks s x = Some t"
  shows "\<exists>s'. returns (\<lambda>n. toggleTask n s x) s' \<and> wf_state s' \<and>
            rootTaskIds s' = rootTaskIds s \<and> shape (tasks s') = shape (tasks s) \<and>
            (\<forall>k \<in> subtree (tasks s) x. isDone (tasks s') k = (\<not> isDone (tasks s) x)) \<and>
            (\<forall>k. k \<notin> subtree (tasks s) x \<longrightarrow> (k, x) \<notin> (parent_rel (tasks s))\<^sup>+ \<longrightarrow>
                 tasks s' k = tasks s k)"
proof -
  let ?T = "tasks s"
  let ?v = "\<not> isDone ?T x"
  let ?q = "parentOf ?T x"
  let ?T1 = "force (subtree ?T x) ?v ?T"
  have so: "struct_ok ?T" and ci: "completion_invariant ?T"
    using wf by (simp_all add: wf_state_struct)
  have up: "upward_ok ?T" using so by (rule struct_ok_upward)
  have br: "back_reference ?T" and ri: "referential_integrity ?T"
    using so by (simp_all add: struct_ok_def)
  note ut = upward_ok_task [OF up t]
  have xd0: "x \<in> dom ?T" using t by blast
  have r1: "returns (\<lambda>n. updateDescendants n x ?v ?T) ?T1"
    using struct_ok_wf_child [OF so] struct_ok_children_defined [OF so]
      struct_ok_children_closed [OF so] refl xd0
    by (rule updateDescendants_returns)
  have sh1: "shape ?T = shape ?T1" by simp
  have fd1: "flags_defined ?T1" using so by (simp add: struct_ok_def well_typed_flags flags_defined_force)
  have so1: "struct_ok ?T1" using so sh1 fd1 by (rule struct_ok_shape)
  have up1: "upward_ok ?T1" using so1 by (rule struct_ok_upward)
  have br1: "back_reference ?T1" using so1 by (simp add: struct_ok_def)
  have xd: "x \<in> dom ?T" using t by blast
  have qd: "\<forall>c. ?q = Some c \<longrightarrow> c \<in> dom ?T1"
    using ri unfolding referential_integrity_def by auto
  have oks1: "\<forall>k. ?q \<noteq> Some k \<longrightarrow> completion_ok ?T1 k"
    using force_completion_ok [OF so ci] by blast
  have "\<exists>T2. returns (\<lambda>n. toggleTask_propagate n ?v ?T1 (Some ?q)) T2 \<and> shape T2 = shape ?T1 \<and>
               flags_defined T2 \<and> completion_invariant T2 \<and>
               (\<forall>k. T2 k \<noteq> ?T1 k \<longrightarrow> (\<exists>c. ?q = Some c \<and> (k, c) \<in> (parent_rel ?T1)\<^sup>*))"
  proof (cases ?v)
    case True
    have "\<forall>k. parentOf ?T1 x \<noteq> Some k \<longrightarrow> completion_ok ?T1 k" using oks1 by simp
    with toggle_up_True [OF up1, of "parentOf ?T1 x"] qd True show ?thesis by simp
  next
    case False
    have "\<forall>c. ?q = Some c \<longrightarrow> c \<in> dom ?T1 \<and> (\<exists>ch \<in> set (childrenOf ?T1 c). \<not> isDone ?T1 ch)"
    proof (intro allI impI conjI)
      fix c assume c: "?q = Some c"
      then show "c \<in> dom ?T1" using qd by blast
      have "x \<in> set (childrenOf ?T1 c)" using br c by (simp add: back_reference_def)
      moreover have "\<not> isDone ?T1 x" using False xd by (simp add: isDone_force)
      ultimately show "\<exists>ch \<in> set (childrenOf ?T1 c). \<not> isDone ?T1 ch" by blast
    qed
    from toggle_up_False [OF up1 br1 this oks1] False show ?thesis by auto
  qed
  then obtain T2 where T2: "returns (\<lambda>n. toggleTask_propagate n ?v ?T1 (Some ?q)) T2"
    "shape T2 = shape ?T1" "flags_defined T2" "completion_invariant T2"
    "\<forall>k. T2 k \<noteq> ?T1 k \<longrightarrow> (\<exists>c. ?q = Some c \<and> (k, c) \<in> (parent_rel ?T1)\<^sup>*)" by blast
  let ?s' = "s\<lparr>tasks := T2\<rparr>"
  have unf: "toggleTask n s x =
     bind_r (updateDescendants n x ?v ?T)
       (\<lambda>tc. bind_r (toggleTask_propagate n ?v tc (Some ?q)) (\<lambda>tc'. ok (s\<lparr>tasks := tc'\<rparr>)))" for n
    using t ut(4) ut(3) by (rule toggleTask_unfold)
  have r2: "returns (\<lambda>n. bind_r (toggleTask_propagate n ?v ?T1 (Some ?q)) (\<lambda>tc'. ok (s\<lparr>tasks := tc'\<rparr>))) ?s'"
    by (rule returns_bind [where g = "\<lambda>n tc'. ok (s\<lparr>tasks := tc'\<rparr>)", OF T2(1) returns_const])
  have r: "returns (\<lambda>n. toggleTask n s x) ?s'"
    unfolding unf
    by (rule returns_bind [where g = "\<lambda>n tc. bind_r (toggleTask_propagate n ?v tc (Some ?q))
          (\<lambda>tc'. ok (s\<lparr>tasks := tc'\<rparr>))", OF r1 r2])
  have sh2: "shape ?T = shape T2" using T2(2) by simp
  have w: "wf_state ?s'" using wf sh2 T2(3,4) by (rule wf_state_shape)
  have R1: "parent_rel ?T1 = parent_rel ?T" by (simp add: parent_rel_def)
  have frame: "T2 k = ?T1 k" if "(k, x) \<notin> (parent_rel ?T)\<^sup>+" for k
  proof (rule ccontr)
    assume "T2 k \<noteq> ?T1 k"
    with T2(5) R1 obtain c where c: "?q = Some c" "(k, c) \<in> (parent_rel ?T)\<^sup>*" by auto
    from c(1) have "(c, x) \<in> parent_rel ?T" by (simp add: parent_rel_def)
    with c(2) have "(k, x) \<in> (parent_rel ?T)\<^sup>+" by simp
    with that show False by simp
  qed
  have sub: "isDone T2 k = ?v" if "k \<in> subtree ?T x" for k
  proof -
    have "(k, x) \<notin> (parent_rel ?T)\<^sup>+" using subtree_not_ancestor [OF so that] by blast
    then have "T2 k = ?T1 k" by (rule frame)
    then have "isDone T2 k = isDone ?T1 k" by (rule isDone_eq_lookup)
    moreover have "k \<in> dom ?T" using ri xd that by (rule subtree_dom)
    ultimately show ?thesis using that by (simp add: isDone_force)
  qed
  have out: "T2 k = ?T k" if "k \<notin> subtree ?T x" "(k, x) \<notin> (parent_rel ?T)\<^sup>+" for k
    using frame [OF that(2)] that(1) by (simp add: force_outside)
  show ?thesis
    using r w sh2 sub out by (intro exI [of _ ?s']) simp
qed

lemma example_childrenOf:
  "childrenOf example_tasks k =
     (if k = ''r'' then [''a'', ''b''] else if k = ''q'' then [''m'']
      else if k = ''m'' then [''l''] else [])"
  by (simp add: childrenOf_def example_tasks_def mk_task_def)

lemma example_parentOf:
  "parentOf example_tasks k =
     (if k = ''a'' \<or> k = ''b'' then Some ''r'' else if k = ''m'' then Some ''q''
      else if k = ''l'' then Some ''m'' else None)"
  by (simp add: parentOf_def example_tasks_def mk_task_def)

lemma example_isDone:
  "isDone example_tasks k = (k = ''a'' \<or> k = ''q'' \<or> k = ''m'' \<or> k = ''l'')"
  by (simp add: isDone_def example_tasks_def mk_task_def js_true_def)

lemma example_dom: "dom example_tasks = {''r'', ''a'', ''b'', ''q'', ''m'', ''l''}"
  by (auto simp: example_tasks_def split: if_splits)

lemma example_well_typed: "well_typed example_tasks"
  unfolding well_typed_def
proof (intro conjI allI impI)
  show "finite (dom example_tasks)" by (simp add: example_dom)
next
  fix k t assume "example_tasks k = Some t"
  then have "k \<in> {''r'', ''a'', ''b'', ''q'', ''m'', ''l''}" "t = mk_task k (isDone example_tasks k)
      (childrenOf example_tasks k) (parentOf example_tasks k)"
    by (auto simp: example_tasks_def isDone_def childrenOf_def parentOf_def mk_task_def js_true_def
        split: if_splits)
  then show "k \<noteq> []" "id_t t = Some k" "title t \<noteq> None" "description t \<noteq> None"
    "completed t \<noteq> None" "children t \<noteq> None" "parentId t \<noteq> None" "createdAt t \<noteq> None"
    by (auto simp: mk_task_def)
qed

lemma example_acyclicity: "acyclicity example_tasks"
proof -
  let ?rank = "\<lambda>k. if k = ''l'' then 2 else if k = ''a'' \<or> k = ''b'' \<or> k = ''m'' then 1 else (0::nat)"
  have "parent_rel example_tasks \<subseteq> measure ?rank"
    by (auto simp: parent_rel_def example_parentOf split: if_splits)
  then show ?thesis unfolding acyclicity_def by (rule wf_subset [OF wf_measure])
qed

lemma example_wf_state: "wf_state example_state"
proof -
  have "referential_integrity example_tasks"
    by (auto simp: referential_integrity_def example_childrenOf example_parentOf example_dom
        split: if_splits)
  moreover have "back_reference example_tasks"
    by (auto simp: back_reference_def example_childrenOf example_parentOf split: if_splits)
  moreover have "completion_invariant example_tasks"
    by (auto simp: completion_invariant_def completion_ok_def example_childrenOf example_isDone)
  moreover have "root_set_consistency example_state"
    by (auto simp: root_set_consistency_def example_state_def example_parentOf example_dom
        split: if_splits)
  ultimately show ?thesis
    using example_well_typed example_acyclicity by (simp add: wf_state_def example_state_def)
qed

section \<open>\<^verbatim>\<open>addTask\<close> on a well-formed state\<close>

lemma shape_flag_lookup:
  assumes "shape tm' = shape tm" "flags_defined tm'" "tm k = Some t"
  shows "tm' k = Some (t\<lparr>completed := Some (isDone tm' k)\<rparr>)"
proof -
  from shape_lookup [OF assms(1) [symmetric] assms(3)] obtain t' where t': "tm' k = Some t'"
    "t'\<lparr>completed := None\<rparr> = t\<lparr>completed := None\<rparr>" by blast
  from assms(2) t'(1) obtain b where b: "completed t' = Some b"
    unfolding flags_defined_def by blast
  then have "isDone tm' k = b" using t'(1) by (simp add: isDone_def js_true_def)
  moreover have "t' = t\<lparr>completed := Some b\<rparr>"
  proof (rule task_eqI)
    show "t'\<lparr>completed := None\<rparr> = t\<lparr>completed := Some b\<rparr>\<lparr>completed := None\<rparr>" using t'(2) by simp
    show "completed t' = completed (t\<lparr>completed := Some b\<rparr>)" using b by simp
  qed
  ultimately show ?thesis using t'(1) by simp
qed

lemma incomplete_propagates_up:
  assumes ci: "completion_invariant tm" and br: "back_reference tm" and x: "\<not> isDone tm x"
    and a: "(a, x) \<in> (parent_rel tm)\<^sup>+"
  shows "\<not> isDone tm a"
  using a
proof (induction rule: converse_trancl_induct)
  case (base y)
  then have "x \<in> set (childrenOf tm y)" using br by (simp add: parent_rel_def back_reference_def)
  moreover have "completion_ok tm y" using ci by (simp add: completion_invariant_def)
  ultimately show ?case using x unfolding completion_ok_def by auto
next
  case (step y z)
  then have "z \<in> set (childrenOf tm y)" using br by (simp add: parent_rel_def back_reference_def)
  moreover have "completion_ok tm y" using ci by (simp add: completion_invariant_def)
  ultimately show ?case using step.IH unfolding completion_ok_def by auto
qed

lemma add_node_views:
  assumes so: "struct_ok tm" and p: "tm p = Some tp" and n: "newId \<notin> dom tm"
  shows "dom (add_node tm newId (newTask newId ttl p now) p) = insert newId (dom tm)"
    and "childrenOf (add_node tm newId (newTask newId ttl p now) p) k =
           (if k = p then childrenOf tm p @ [newId] else childrenOf tm k)"
    and "parentOf (add_node tm newId (newTask newId ttl p now) p) k =
           (if k = newId then Some p else parentOf tm k)"
    and "isDone (add_node tm newId (newTask newId ttl p now) p) k =
           (k \<noteq> p \<and> isDone tm k)"
proof -
  have np: "newId \<noteq> p" using p n by auto
  have nn: "tm newId = None" using n by auto
  note ut = upward_ok_task [OF struct_ok_upward [OF so] p]
  show "dom (add_node tm newId (newTask newId ttl p now) p) = insert newId (dom tm)"
    using p by (auto simp: add_node_def)
  show "childrenOf (add_node tm newId (newTask newId ttl p now) p) k =
           (if k = p then childrenOf tm p @ [newId] else childrenOf tm k)"
    using p np nn by (simp add: add_node_def childrenOf_def newTask_def)
  show "parentOf (add_node tm newId (newTask newId ttl p now) p) k =
           (if k = newId then Some p else parentOf tm k)"
    using p np nn by (simp add: add_node_def parentOf_def newTask_def)
  show "isDone (add_node tm newId (newTask newId ttl p now) p) k = (k \<noteq> p \<and> isDone tm k)"
    using p np nn by (simp add: add_node_def isDone_def newTask_def js_true_def)
qed

lemma add_node_parent_rel:
  assumes so: "struct_ok tm" and p: "tm p = Some tp" and n: "newId \<notin> dom tm"
  shows "parent_rel (add_node tm newId (newTask newId ttl p now) p) = insert (p, newId) (parent_rel tm)"
proof -
  have "parentOf tm newId = None" using n by (simp add: domIff)
  then show ?thesis
    unfolding parent_rel_def add_node_views(3) [OF assms] by (auto split: if_splits)
qed

lemma fresh_no_edges:
  assumes "referential_integrity tm" "newId \<notin> dom tm"
  shows "(newId, z) \<notin> parent_rel tm" "(z, newId) \<notin> parent_rel tm"
  using parent_rel_dom [OF assms(1)] assms(2) by auto

lemma fresh_not_rtrancl:
  assumes "referential_integrity tm" "newId \<notin> dom tm" "newId \<noteq> p"
  shows "(newId, p) \<notin> (parent_rel tm)\<^sup>*"
proof
  assume "(newId, p) \<in> (parent_rel tm)\<^sup>*"
  then show False
  proof (cases rule: converse_rtranclE)
    case base
    with assms(3) show False by simp
  next
    case (step z)
    with fresh_no_edges(1) [OF assms(1,2)] show False by blast
  qed
qed

lemma add_node_struct_ok:
  assumes so: "struct_ok tm" and p: "tm p = Some tp" and n: "newId \<notin> dom tm" and ne: "newId \<noteq> []"
  shows "struct_ok (add_node tm newId (newTask newId ttl p now) p)"
proof -
  let ?U = "add_node tm newId (newTask newId ttl p now) p"
  note v = add_node_views [OF so p n, of ttl now]
  have np: "newId \<noteq> p" using p n by auto
  have nn: "tm newId = None" using n by auto
  have wt: "well_typed tm" and ri: "referential_integrity tm" and br: "back_reference tm"
    and ac: "acyclicity tm" using so by (simp_all add: struct_ok_def)
  have U: "?U = tm(newId \<mapsto> newTask newId ttl p now,
       p \<mapsto> tp\<lparr>children := Some (childrenOf tm p @ [newId]), completed := Some False\<rparr>)"
    using p by (simp add: add_node_def)
  have "well_typed ?U"
    unfolding well_typed_def
  proof (intro conjI allI impI)
    show "finite (dom ?U)" using wt by (simp add: v(1) well_typed_def)
  next
    fix k t assume kt: "?U k = Some t"
    have w: "k \<noteq> [] \<and> id_t t = Some k \<and> title t \<noteq> None \<and> description t \<noteq> None \<and> completed t \<noteq> None \<and>
       children t \<noteq> None \<and> parentId t \<noteq> None \<and> createdAt t \<noteq> None"
    proof (cases "k = p")
      case True
      with kt U have "t = tp\<lparr>children := Some (childrenOf tm p @ [newId]), completed := Some False\<rparr>"
        by simp
      moreover have "p \<noteq> [] \<and> id_t tp = Some p \<and> title tp \<noteq> None \<and> description tp \<noteq> None \<and>
        parentId tp \<noteq> None \<and> createdAt tp \<noteq> None"
        using wt p unfolding well_typed_def by blast
      ultimately show ?thesis using True by simp
    next
      case False
      show ?thesis
      proof (cases "k = newId")
        case True
        with kt U np have "t = newTask newId ttl p now" by simp
        then show ?thesis using True ne by (simp add: newTask_def)
      next
        case False
        with kt U \<open>k \<noteq> p\<close> have "tm k = Some t" by simp
        then show ?thesis using wt unfolding well_typed_def by blast
      qed
    qed
    show "k \<noteq> []" "id_t t = Some k" "title t \<noteq> None" "description t \<noteq> None" "completed t \<noteq> None"
       "children t \<noteq> None" "parentId t \<noteq> None" "createdAt t \<noteq> None"
      using w by simp_all
  qed
  moreover have "referential_integrity ?U"
    using ri p unfolding referential_integrity_def v by auto
  moreover have "back_reference ?U"
  proof -
    have nc: "newId \<notin> set (childrenOf tm k)" for k
      using ri n unfolding referential_integrity_def by blast
    have "(c \<in> set (childrenOf ?U p')) = (parentOf ?U c = Some p')" for p' c
    proof (cases "c = newId")
      case True
      then show ?thesis using nc [of p'] by (auto simp: v)
    next
      case False
      then show ?thesis using br by (auto simp: v back_reference_def)
    qed
    moreover have "distinct (childrenOf ?U k)" for k
      using br nc [of p] by (simp add: v back_reference_def)
    ultimately show ?thesis by (simp add: back_reference_def)
  qed
  moreover have "acyclicity ?U"
    unfolding acyclicity_def add_node_parent_rel [OF so p n]
    using ac fresh_not_rtrancl [OF ri n np] by (simp add: acyclicity_def)
  ultimately show ?thesis by (simp add: struct_ok_def)
qed

lemma addTask_unfold:
  assumes so: "struct_ok (tasks s)" and p: "tasks s p = Some tp"
  shows "addTask n newId now s p ttl =
     bind_r (addTask_propagate n (add_node (tasks s) newId (newTask newId ttl p now) p)
               (Some (parentOf (tasks s) p)))
       (\<lambda>u. ok (s\<lparr>tasks := u\<rparr>))"
  using p upward_ok_task(2,3) [OF struct_ok_upward [OF so] p]
  by (simp add: addTask_def add_node_def newTask_def)

lemma addTask_char:
  assumes wf: "wf_state s" and p: "tasks s p = Some tp" and n: "newId \<notin> dom (tasks s)"
    and ne: "newId \<noteq> []"
  shows "\<exists>s'. returns (\<lambda>fuel. addTask fuel newId now s p ttl) s' \<and> wf_state s' \<and>
            rootTaskIds s' = rootTaskIds s \<and>
            shape (tasks s') = shape (add_node (tasks s) newId (newTask newId ttl p now) p) \<and>
            (\<forall>k. isDone (tasks s') k =
                 (k \<noteq> p \<and> (k, p) \<notin> (parent_rel (tasks s))\<^sup>+ \<and> isDone (tasks s) k))"
proof -
  let ?T = "tasks s"
  let ?U0 = "add_node ?T newId (newTask newId ttl p now) p"
  let ?q = "parentOf ?T p"
  let ?R = "parent_rel ?T"
  have so: "struct_ok ?T" and ci: "completion_invariant ?T" and rs: "root_set_consistency s"
    using wf by (simp_all add: wf_state_struct)
  have ri: "referential_integrity ?T" and br: "back_reference ?T"
    using so by (simp_all add: struct_ok_def)
  note ut = upward_ok_task [OF struct_ok_upward [OF so] p]
  note v = add_node_views [OF so p n, of ttl now]
  have so0: "struct_ok ?U0" using so p n ne by (rule add_node_struct_ok)
  have up0: "upward_ok ?U0" using so0 by (rule struct_ok_upward)
  have br0: "back_reference ?U0" using so0 by (simp add: struct_ok_def)
  have R0: "parent_rel ?U0 = insert (p, newId) ?R" using so p n by (rule add_node_parent_rel)
  have np: "newId \<noteq> p" using p n by auto
  have "\<not> isDone ?T newId" using n by (simp add: isDone_def domIff)
  then have dn: "\<not> isDone ?U0 newId" by (simp add: v)
  have qa: "\<forall>c. ?q = Some c \<longrightarrow> c \<in> dom ?U0 \<and> (\<exists>ch \<in> set (childrenOf ?U0 c). \<not> isDone ?U0 ch)"
  proof (intro allI impI conjI)
    fix c assume c: "?q = Some c"
    have "c \<in> dom ?T" using ri c unfolding referential_integrity_def by blast
    then show "c \<in> dom ?U0" by (simp add: v)
    have "c \<noteq> p" using ut(7) c by auto
    moreover have "p \<in> set (childrenOf ?T c)" using br c by (simp add: back_reference_def)
    ultimately have "p \<in> set (childrenOf ?U0 c)" by (simp add: v)
    moreover have "\<not> isDone ?U0 p" by (simp add: v)
    ultimately show "\<exists>ch \<in> set (childrenOf ?U0 c). \<not> isDone ?U0 ch" by blast
  qed
  have oks: "\<forall>k. ?q \<noteq> Some k \<longrightarrow> completion_ok ?U0 k"
  proof (intro allI impI)
    fix k assume k: "?q \<noteq> Some k"
    show "completion_ok ?U0 k"
    proof (cases "k = p")
      case True
      have "newId \<in> set (childrenOf ?U0 p)" by (simp add: v)
      with dn have "\<not> (\<forall>ch \<in> set (childrenOf ?U0 p). isDone ?U0 ch)" by blast
      moreover have "\<not> isDone ?U0 p" by (simp add: v)
      ultimately show ?thesis using True by (simp add: completion_ok_def)
    next
      case False
      have "p \<notin> set (childrenOf ?T k)" using br k by (auto simp: back_reference_def)
      then have "\<forall>ch \<in> set (childrenOf ?T k). isDone ?U0 ch = isDone ?T ch"
        by (auto simp: v)
      moreover have "completion_ok ?T k" using ci by (simp add: completion_invariant_def)
      ultimately show ?thesis using False by (simp add: completion_ok_def v)
    qed
  qed
  from addTask_up [OF up0 br0 qa oks]
  obtain U1 where U1: "returns (\<lambda>n. addTask_propagate n ?U0 (Some ?q)) U1" "shape U1 = shape ?U0"
    "flags_defined U1" "completion_invariant U1"
    "\<forall>k. U1 k \<noteq> ?U0 k \<longrightarrow> (\<exists>c. ?q = Some c \<and> (k, c) \<in> (parent_rel ?U0)\<^sup>*) \<and> \<not> isDone U1 k"
    by blast
  let ?s' = "s\<lparr>tasks := U1\<rparr>"
  have r: "returns (\<lambda>fuel. addTask fuel newId now s p ttl) ?s'"
    unfolding addTask_unfold [OF so p]
    by (rule returns_bind [where g = "\<lambda>n u. ok (s\<lparr>tasks := u\<rparr>)", OF U1(1) returns_const])
  have so1: "struct_ok U1" using so0 U1(2) [symmetric] U1(3) by (rule struct_ok_shape)
  have br1: "back_reference U1" using so1 by (simp add: struct_ok_def)
  have R1: "parent_rel U1 = insert (p, newId) ?R" using shape_parent_rel [OF U1(2)] R0 by simp
  have same: "isDone U1 k = isDone ?U0 k" if "\<not> (\<not> isDone U1 k \<and> (\<exists>c. ?q = Some c \<and> (k, c) \<in> (parent_rel ?U0)\<^sup>*))" for k
  proof -
    have "U1 k = ?U0 k" using U1(5) that by blast
    then show ?thesis by (rule isDone_eq_lookup)
  qed
  have dn1: "\<not> isDone U1 newId" using same [of newId] dn by blast
  have flags: "isDone U1 k = (k \<noteq> p \<and> (k, p) \<notin> ?R\<^sup>+ \<and> isDone ?T k)" for k
  proof (cases "k = p \<or> (k, p) \<in> ?R\<^sup>+")
    case True
    have "(p, newId) \<in> parent_rel U1" by (simp add: R1)
    moreover have "?R\<^sup>* \<subseteq> (parent_rel U1)\<^sup>*" unfolding R1 by (rule rtrancl_mono) blast
    moreover have "(k, p) \<in> ?R\<^sup>*" using True by auto
    ultimately have "(k, newId) \<in> (parent_rel U1)\<^sup>+" by auto
    with incomplete_propagates_up [OF U1(4) br1 dn1] have "\<not> isDone U1 k" by blast
    with True show ?thesis by blast
  next
    case False
    have "\<not> (\<exists>c. ?q = Some c \<and> (k, c) \<in> (parent_rel ?U0)\<^sup>*)"
    proof
      assume "\<exists>c. ?q = Some c \<and> (k, c) \<in> (parent_rel ?U0)\<^sup>*"
      then obtain c where c: "?q = Some c" "(k, c) \<in> (insert (p, newId) ?R)\<^sup>*" using R0 by auto
      have cp: "(c, p) \<in> ?R" using c(1) by (simp add: parent_rel_def)
      have "c \<in> dom ?T" using ri c(1) unfolding referential_integrity_def by blast
      then have "newId \<noteq> c" using n by auto
      with ri n have "(newId, c) \<notin> ?R\<^sup>*" by (rule fresh_not_rtrancl)
      with c(2) have "(k, c) \<in> ?R\<^sup>*" by (simp add: rtrancl_insert)
      with cp have "(k, p) \<in> ?R\<^sup>+" by simp
      with False show False by simp
    qed
    then have "isDone U1 k = isDone ?U0 k" using same [of k] by blast
    with False show ?thesis by (simp add: v)
  qed
  have "root_set_consistency ?s'"
  proof -
    have "dom U1 = insert newId (dom ?T)" using shape_dom [OF U1(2)] by (simp add: v)
    moreover have "parentOf U1 k = (if k = newId then Some p else parentOf ?T k)" for k
      using shape_parentOf [OF U1(2)] by (simp add: v)
    ultimately have "{k \<in> dom U1. parentOf U1 k = None} = {k \<in> dom ?T. parentOf ?T k = None}"
      using n by auto
    then show ?thesis using rs by (simp add: root_set_consistency_def)
  qed
  then have w: "wf_state ?s'" using so1 U1(4) by (simp add: wf_state_struct)
  show ?thesis using r w U1(2) flags by (intro exI [of _ ?s']) simp
qed

section \<open>\<^verbatim>\<open>deleteTask\<close> on a well-formed state\<close>

lemma detach_node_views:
  assumes so: "struct_ok tm"
  shows "dom (detach_node tm x) = dom tm"
    and "childrenOf (detach_node tm x) k = filter (\<lambda>c. c \<noteq> x) (childrenOf tm k)"
    and "parentOf (detach_node tm x) k = parentOf tm k"
    and "isDone (detach_node tm x) k = isDone tm k"
proof -
  have br: "back_reference tm" using so by (simp add: struct_ok_def)
  show "dom (detach_node tm x) = dom tm"
    by (auto simp: detach_node_def split: option.splits if_splits)
  show "parentOf (detach_node tm x) k = parentOf tm k"
    by (auto simp: detach_node_def parentOf_def split: option.splits)
  show "isDone (detach_node tm x) k = isDone tm k"
    by (auto simp: detach_node_def isDone_def split: option.splits)
  show "childrenOf (detach_node tm x) k = filter (\<lambda>c. c \<noteq> x) (childrenOf tm k)"
  proof (cases "parentOf tm x = Some k")
    case True
    then show ?thesis
      by (auto simp: detach_node_def childrenOf_def split: option.splits)
  next
    case False
    then have "x \<notin> set (childrenOf tm k)" using br by (simp add: back_reference_def)
    then have "filter (\<lambda>c. c \<noteq> x) (childrenOf tm k) = childrenOf tm k" by (auto simp: filter_id_conv)
    moreover have "childrenOf (detach_node tm x) k = childrenOf tm k"
      using False by (auto simp: detach_node_def childrenOf_def split: option.splits)
    ultimately show ?thesis by simp
  qed
qed

lemma detach_node_upward_ok:
  assumes so: "struct_ok tm"
  shows "upward_ok (detach_node tm x)"
proof -
  let ?U = "detach_node tm x"
  note v = detach_node_views [OF so, of x]
  have wt: "well_typed tm" and ri: "referential_integrity tm" and br: "back_reference tm"
    and ac: "acyclicity tm" using so by (simp_all add: struct_ok_def)
  have "well_typed ?U"
    unfolding well_typed_def
  proof (intro conjI allI impI)
    show "finite (dom ?U)" using wt by (simp add: v well_typed_def)
  next
    fix k t assume kt: "?U k = Some t"
    have "\<exists>t0 cs. tm k = Some t0 \<and> t = t0\<lparr>children := Some cs\<rparr>"
    proof (cases "tm k")
      case None
      then have "k \<notin> dom ?U" by (simp add: v domIff)
      with kt show ?thesis by auto
    next
      case (Some t0)
      from wt Some obtain cs0 where cs0: "children t0 = Some cs0"
        unfolding well_typed_def by blast
      have e: "t0 = t0\<lparr>children := Some cs0\<rparr>" using cs0 by (cases t0) simp
      have "t = t0 \<or> (\<exists>cs. t = t0\<lparr>children := Some cs\<rparr>)"
        using kt Some by (auto simp: detach_node_def split: option.splits if_splits)
      then show ?thesis
      proof
        assume "t = t0"
        with e have "t = t0\<lparr>children := Some cs0\<rparr>" by simp
        with Some show ?thesis by blast
      next
        assume "\<exists>cs. t = t0\<lparr>children := Some cs\<rparr>"
        with Some show ?thesis by blast
      qed
    qed
    then obtain t0 cs where t0: "tm k = Some t0" "t = t0\<lparr>children := Some cs\<rparr>" by blast
    have "k \<noteq> [] \<and> id_t t0 = Some k \<and> title t0 \<noteq> None \<and> description t0 \<noteq> None \<and>
        completed t0 \<noteq> None \<and> parentId t0 \<noteq> None \<and> createdAt t0 \<noteq> None"
      using wt t0(1) unfolding well_typed_def by blast
    then show "k \<noteq> []" "id_t t = Some k" "title t \<noteq> None" "description t \<noteq> None" "completed t \<noteq> None"
       "children t \<noteq> None" "parentId t \<noteq> None" "createdAt t \<noteq> None"
      using t0(2) by simp_all
  qed
  moreover have "referential_integrity ?U"
    using ri unfolding referential_integrity_def v by auto
  moreover have "\<forall>p c. c \<in> set (childrenOf ?U p) \<longrightarrow> parentOf ?U c = Some p"
    using br by (auto simp: v back_reference_def)
  moreover have "acyclicity ?U"
    using ac by (simp add: acyclicity_def parent_rel_def v)
  ultimately show ?thesis by (simp add: upward_ok_def)
qed

lemma deleteTask_detach_unfold:
  assumes so: "struct_ok tm" and x: "tm x = Some tx"
  shows "deleteTask_detach n tm x tx =
    (case parentOf tm x of None \<Rightarrow> ok tm
     | Some p \<Rightarrow>
        if childrenOf (detach_node tm x) p \<noteq> [] \<and>
           (\<forall>ch \<in> set (childrenOf (detach_node tm x) p). isDone tm ch)
        then deleteTask_propagate n (detach_node tm x) (Some (Some p))
        else ok (detach_node tm x))"
proof (cases "parentOf tm x")
  case None
  then show ?thesis
    using upward_ok_task(3) [OF struct_ok_upward [OF so] x]
    by (simp add: deleteTask_detach_def)
next
  case (Some p)
  have up: "upward_ok tm" using so by (rule struct_ok_upward)
  have "p \<in> dom tm" using so Some unfolding struct_ok_def referential_integrity_def by blast
  then obtain tp where tp: "tm p = Some tp" by blast
  note utp = upward_ok_task [OF up tp]
  have idp: "id_t tp = Some p" using so tp unfolding struct_ok_def well_typed_def by blast
  let ?nc = "filter (\<lambda>c. c \<noteq> x) (childrenOf tm p)"
  have U: "detach_node tm x = tm(p \<mapsto> tp\<lparr>children := Some ?nc\<rparr>)"
    using Some tp by (simp add: detach_node_def)
  note v = detach_node_views [OF so, of x]
  have "\<forall>ch \<in> set ?nc. ch \<in> dom (detach_node tm x)"
    using so unfolding struct_ok_def referential_integrity_def v by auto
  then have ev: "every_completed (detach_node tm x) ?nc = Inr (\<forall>ch \<in> set ?nc. isDone tm ch)"
    using every_completed_eq [of ?nc "detach_node tm x"] by (simp add: v)
  have 1: "deleteTask_detach n tm x tx =
      (if ?nc \<noteq> [] then
         (case every_completed (detach_node tm x) ?nc of Inl e \<Rightarrow> throw e
          | Inr b \<Rightarrow> if b then deleteTask_propagate n (detach_node tm x) (Some (Some p))
                     else ok (detach_node tm x))
       else ok (detach_node tm x))"
    unfolding U using Some tp utp(1,2) idp upward_ok_task(3) [OF up x]
    by (simp add: deleteTask_detach_def prop_key_def Let_def split: sum.splits)
  show ?thesis unfolding 1 ev using Some by (auto simp: v)
qed

lemma detach_returns:
  assumes so: "struct_ok tm" and ci: "completion_invariant tm" and x: "tm x = Some tx"
  shows "\<exists>T2. returns (\<lambda>n. deleteTask_detach n tm x tx) T2 \<and>
           shape T2 = shape (detach_node tm x) \<and> flags_defined T2 \<and>
           (\<forall>k. k \<notin> subtree tm x \<longrightarrow> completion_ok T2 k) \<and>
           (\<forall>k. T2 k \<noteq> detach_node tm x k \<longrightarrow> (k, x) \<in> (parent_rel tm)\<^sup>+ \<and> isDone T2 k) \<and>
           (\<forall>p. parentOf tm x = Some p \<longrightarrow> childrenOf (detach_node tm x) p = [] \<longrightarrow>
                T2 = detach_node tm x)"
proof -
  let ?U = "detach_node tm x"
  let ?D = "subtree tm x"
  note v = detach_node_views [OF so, of x]
  have upU: "upward_ok ?U" using so by (rule detach_node_upward_ok)
  have fdU: "flags_defined ?U" using upU by (simp add: upward_ok_def well_typed_flags)
  have br: "back_reference tm" and ri: "referential_integrity tm"
    using so by (simp_all add: struct_ok_def)
  have RU: "parent_rel ?U = parent_rel tm" by (simp add: parent_rel_def v)
  have okU: "completion_ok ?U k" if "parentOf tm x \<noteq> Some k" for k
  proof -
    have "x \<notin> set (childrenOf tm k)" using br that by (simp add: back_reference_def)
    then have "filter (\<lambda>c. c \<noteq> x) (childrenOf tm k) = childrenOf tm k"
      by (auto simp: filter_id_conv)
    moreover have "completion_ok tm k" using ci by (simp add: completion_invariant_def)
    ultimately show ?thesis by (simp add: completion_ok_def v)
  qed
  have trivial: "returns (\<lambda>n. ok ?U) ?U \<and> shape ?U = shape ?U \<and> flags_defined ?U \<and>
           (\<forall>k. k \<notin> ?D \<longrightarrow> completion_ok ?U k) \<and>
           (\<forall>k. ?U k \<noteq> ?U k \<longrightarrow> (k, x) \<in> (parent_rel tm)\<^sup>+ \<and> isDone ?U k) \<and>
           (\<forall>p. parentOf tm x = Some p \<longrightarrow> childrenOf ?U p = [] \<longrightarrow> ?U = ?U)"
    if "\<forall>k. completion_ok ?U k"
    using that fdU returns_const [of ?U] by simp
  show ?thesis
  proof (cases "parentOf tm x")
    case None
    have "\<forall>k. completion_ok ?U k" using okU None by simp
    moreover have "?U = tm" using None by (simp add: detach_node_def)
    ultimately show ?thesis
      unfolding deleteTask_detach_unfold [OF so x] using None trivial
      by (intro exI [of _ ?U]) simp
  next
    case (Some p)
    have pd: "p \<in> dom ?U" using ri Some unfolding referential_integrity_def v by blast
    have px: "(p, x) \<in> parent_rel tm" using Some by (simp add: parent_rel_def)
    have xp: "x \<in> set (childrenOf tm p)" using br Some by (simp add: back_reference_def)
    have okp: "completion_ok tm p" using ci by (simp add: completion_invariant_def)
    have Ip: "isDone ?U p \<longrightarrow> (\<forall>ch \<in> set (childrenOf ?U p). isDone ?U ch)"
      using okp xp by (auto simp: v completion_ok_def)
    show ?thesis
    proof (cases "childrenOf ?U p \<noteq> [] \<and> (\<forall>ch \<in> set (childrenOf ?U p). isDone tm ch)")
      case True
      have anc: "\<forall>a. (a, p) \<in> (parent_rel ?U)\<^sup>* \<longrightarrow> a \<notin> ?D"
      proof (intro allI impI notI)
        fix a assume "(a, p) \<in> (parent_rel ?U)\<^sup>*" "a \<in> ?D"
        then have "(a, x) \<in> (parent_rel tm)\<^sup>+" using px RU by simp
        with subtree_not_ancestor [OF so \<open>a \<in> ?D\<close>] show False by blast
      qed
      have oks: "\<forall>k. k \<notin> ?D \<longrightarrow> k \<noteq> p \<longrightarrow> completion_ok ?U k" using okU Some by simp
      from delete_up [OF upU pd Ip anc oks]
      obtain T2 where T2: "returns (\<lambda>n. deleteTask_propagate n ?U (Some (Some p))) T2"
        "shape T2 = shape ?U" "flags_defined T2" "\<forall>k. k \<notin> ?D \<longrightarrow> completion_ok T2 k"
        "\<forall>k. T2 k \<noteq> ?U k \<longrightarrow> (k, p) \<in> (parent_rel ?U)\<^sup>* \<and> isDone T2 k" by blast
      have "\<forall>k. T2 k \<noteq> ?U k \<longrightarrow> (k, x) \<in> (parent_rel tm)\<^sup>+ \<and> isDone T2 k"
        using T2(5) px RU by auto
      moreover have "returns (\<lambda>n. deleteTask_detach n tm x tx) T2"
        unfolding deleteTask_detach_unfold [OF so x] using Some True T2(1) by simp
      ultimately show ?thesis using T2(2,3,4) Some True by (intro exI [of _ T2]) simp
    next
      case False
      have "completion_ok ?U p"
      proof (cases "childrenOf ?U p = []")
        case True
        then show ?thesis by (simp add: completion_ok_def)
      next
        case False
        with \<open>\<not> (childrenOf ?U p \<noteq> [] \<and> (\<forall>ch \<in> set (childrenOf ?U p). isDone tm ch))\<close>
        have "\<not> (\<forall>ch \<in> set (childrenOf ?U p). isDone ?U ch)" by (simp add: v)
        with Ip show ?thesis by (auto simp: completion_ok_def)
      qed
      with okU Some have "\<forall>k. completion_ok ?U k" by (metis option.inject)
      moreover have "deleteTask_detach n tm x tx = ok ?U" for n
        unfolding deleteTask_detach_unfold [OF so x] using Some False by auto
      ultimately show ?thesis using trivial by (intro exI [of _ ?U]) simp
    qed
  qed
qed

lemma shape_restrict: "shape (tm |` A) = shape tm |` A"
  by (auto simp: shape_def restrict_map_def fun_eq_iff)

lemma restrict_views:
  assumes so: "struct_ok tm" and sh: "shape T2 = shape (detach_node tm x)"
  shows "dom (T2 |` (- subtree tm x)) = dom tm - subtree tm x"
    and "childrenOf (T2 |` (- subtree tm x)) k =
           (if k \<in> subtree tm x then [] else filter (\<lambda>c. c \<noteq> x) (childrenOf tm k))"
    and "parentOf (T2 |` (- subtree tm x)) k = (if k \<in> subtree tm x then None else parentOf tm k)"
    and "isDone (T2 |` (- subtree tm x)) k = (k \<notin> subtree tm x \<and> isDone T2 k)"
proof -
  note v = detach_node_views [OF so, of x]
  have c: "childrenOf T2 = childrenOf (detach_node tm x)" using sh by (rule shape_childrenOf)
  have p: "parentOf T2 = parentOf (detach_node tm x)" using sh by (rule shape_parentOf)
  have d: "dom T2 = dom (detach_node tm x)" using sh by (rule shape_dom)
  show "dom (T2 |` (- subtree tm x)) = dom tm - subtree tm x" using d by (auto simp: v)
  show "childrenOf (T2 |` (- subtree tm x)) k =
           (if k \<in> subtree tm x then [] else filter (\<lambda>c. c \<noteq> x) (childrenOf tm k))"
  proof (cases "k \<in> subtree tm x")
    case True
    then show ?thesis by (simp add: childrenOf_def restrict_map_def)
  next
    case False
    then have "childrenOf (T2 |` (- subtree tm x)) k = childrenOf T2 k"
      by (simp add: childrenOf_def restrict_map_def)
    then show ?thesis using False c by (simp add: v)
  qed
  show "parentOf (T2 |` (- subtree tm x)) k = (if k \<in> subtree tm x then None else parentOf tm k)"
  proof (cases "k \<in> subtree tm x")
    case True
    then show ?thesis by (simp add: parentOf_def restrict_map_def)
  next
    case False
    then have "parentOf (T2 |` (- subtree tm x)) k = parentOf T2 k"
      by (simp add: parentOf_def restrict_map_def)
    then show ?thesis using False p by (simp add: v)
  qed
  show "isDone (T2 |` (- subtree tm x)) k = (k \<notin> subtree tm x \<and> isDone T2 k)"
    by (simp add: isDone_def restrict_map_def)
qed

lemma subtree_has_parent:
  assumes "back_reference tm" "k \<in> subtree tm x" "k \<noteq> x"
  shows "parentOf tm k \<noteq> None"
proof -
  from assms(2) have "(x, k) \<in> (child_rel tm)\<^sup>*" by (simp add: subtree_def)
  with assms(3) obtain y where "(y, k) \<in> child_rel tm" by (metis rtranclE)
  then show ?thesis using assms(1) by (simp add: child_rel_def back_reference_def)
qed

lemma restrict_struct_ok:
  assumes so: "struct_ok tm" and sh: "shape T2 = shape (detach_node tm x)" and fd: "flags_defined T2"
  shows "struct_ok (T2 |` (- subtree tm x))"
proof -
  let ?D = "subtree tm x"
  let ?T' = "T2 |` (- ?D)"
  note v = restrict_views [OF so sh]
  have br: "back_reference tm" and ri: "referential_integrity tm" and ac: "acyclicity tm"
    using so by (simp_all add: struct_ok_def)
  have d2: "ch \<notin> ?D" if "k \<notin> ?D" "ch \<in> set (childrenOf tm k)" "ch \<noteq> x" for k ch
    using subtree_parent [OF br _ that(3,2)] that(1) by blast
  have d3: "p \<notin> ?D" if "k \<notin> ?D" "parentOf tm k = Some p" for k p
  proof
    assume "p \<in> ?D"
    moreover have "k \<in> set (childrenOf tm p)" using br that(2) by (simp add: back_reference_def)
    ultimately have "k \<in> ?D" by (rule subtree_child_closed)
    with that(1) show False by simp
  qed
  have "well_typed T2"
    using well_typed_shape [OF _ sh [symmetric] fd] detach_node_upward_ok [OF so]
    by (simp add: upward_ok_def)
  then have "well_typed ?T'"
    unfolding well_typed_def
  proof (intro conjI allI impI)
    assume a: "finite (dom T2) \<and> (\<forall>k t. T2 k = Some t \<longrightarrow>
        k \<noteq> [] \<and> id_t t = Some k \<and> title t \<noteq> None \<and> description t \<noteq> None \<and>
        completed t \<noteq> None \<and> children t \<noteq> None \<and> parentId t \<noteq> None \<and> createdAt t \<noteq> None)"
    then show "finite (dom ?T')" by simp
    fix k t assume "?T' k = Some t"
    then have "T2 k = Some t" by (simp add: restrict_map_def split: if_splits)
    with a show "k \<noteq> []" "id_t t = Some k" "title t \<noteq> None" "description t \<noteq> None"
      "completed t \<noteq> None" "children t \<noteq> None" "parentId t \<noteq> None" "createdAt t \<noteq> None"
      by blast+
  qed
  moreover have "referential_integrity ?T'"
    unfolding referential_integrity_def
  proof (intro allI conjI ballI impI)
    fix k c assume "c \<in> set (childrenOf ?T' k)"
    then have k: "k \<notin> ?D" "c \<in> set (childrenOf tm k)" "c \<noteq> x"
      by (auto simp: v split: if_splits)
    then have "c \<notin> ?D" by (rule d2)
    moreover have "c \<in> dom tm" using ri k(2) unfolding referential_integrity_def by blast
    ultimately show "c \<in> dom ?T'" unfolding v(1) by simp
  next
    fix k p assume "parentOf ?T' k = Some p"
    then have k: "k \<notin> ?D" "parentOf tm k = Some p" by (auto simp: v split: if_splits)
    then have "p \<notin> ?D" by (rule d3)
    moreover have "p \<in> dom tm" using ri k(2) unfolding referential_integrity_def by blast
    ultimately show "p \<in> dom ?T'" unfolding v(1) by simp
  qed
  moreover have "back_reference ?T'"
    unfolding back_reference_def
  proof (intro allI conjI iffI)
    fix p c assume "c \<in> set (childrenOf ?T' p)"
    then have k: "p \<notin> ?D" "c \<in> set (childrenOf tm p)" "c \<noteq> x"
      by (auto simp: v split: if_splits)
    then have "c \<notin> ?D" by (rule d2)
    moreover have "parentOf tm c = Some p" using br k(2) by (simp add: back_reference_def)
    ultimately show "parentOf ?T' c = Some p" by (simp add: v)
  next
    fix p c assume "parentOf ?T' c = Some p"
    then have k: "c \<notin> ?D" "parentOf tm c = Some p" by (auto simp: v split: if_splits)
    then have "p \<notin> ?D" by (rule d3)
    moreover have "c \<noteq> x" using k(1) by auto
    moreover have "c \<in> set (childrenOf tm p)" using br k(2) by (simp add: back_reference_def)
    ultimately show "c \<in> set (childrenOf ?T' p)" by (simp add: v)
  next
    fix k show "distinct (childrenOf ?T' k)" using br by (simp add: v back_reference_def)
  qed
  moreover have "acyclicity ?T'"
  proof -
    have "parent_rel ?T' \<subseteq> parent_rel tm" by (auto simp: parent_rel_def v split: if_splits)
    with ac show ?thesis unfolding acyclicity_def by (rule wf_subset)
  qed
  ultimately show ?thesis by (simp add: struct_ok_def)
qed

lemma deleteTask_unfold:
  assumes "tasks s x = Some tx"
  shows "deleteTask n s x =
     bind_r (collect n (tasks s) x [])
       (\<lambda>ids. bind_r (deleteTask_detach n (tasks s) x tx)
          (\<lambda>tc. ok \<lparr> tasks = tc |` (- set ids),
                       rootTaskIds = filter (\<lambda>i. i \<noteq> x) (rootTaskIds s) \<rparr>))"
  using assms by (simp add: deleteTask_def fold_delete)

lemma subtree_child_outside:
  assumes "back_reference tm" "k \<notin> subtree tm x" "ch \<in> set (childrenOf tm k)" "ch \<noteq> x"
  shows "ch \<notin> subtree tm x"
  using subtree_parent [OF assms(1) _ assms(4,3)] assms(2) by blast

lemma delete_char:
  assumes wf: "wf_state s" and x: "tasks s x = Some tx"
  shows "\<exists>s' T2. returns (\<lambda>n. deleteTask n s x) s' \<and> wf_state s' \<and>
     rootTaskIds s' = filter (\<lambda>i. i \<noteq> x) (rootTaskIds s) \<and>
     tasks s' = T2 |` (- subtree (tasks s) x) \<and>
     shape T2 = shape (detach_node (tasks s) x) \<and> flags_defined T2 \<and>
     (\<forall>k. T2 k \<noteq> detach_node (tasks s) x k \<longrightarrow>
          (k, x) \<in> (parent_rel (tasks s))\<^sup>+ \<and> isDone T2 k) \<and>
     (\<forall>p. parentOf (tasks s) x = Some p \<longrightarrow> childrenOf (detach_node (tasks s) x) p = [] \<longrightarrow>
          T2 = detach_node (tasks s) x)"
proof -
  let ?T = "tasks s"
  let ?D = "subtree ?T x"
  let ?U = "detach_node ?T x"
  have so: "struct_ok ?T" and ci: "completion_invariant ?T" and rs: "root_set_consistency s"
    using wf by (simp_all add: wf_state_struct)
  have br: "back_reference ?T" using so by (simp add: struct_ok_def)
  have xd: "x \<in> dom ?T" using x by blast
  from collect_returns [OF struct_ok_wf_child [OF so] struct_ok_children_defined [OF so]
      struct_ok_children_closed [OF so] xd, of "[]"]
  obtain ids where ids: "returns (\<lambda>n. collect n ?T x []) ids" "set ids = ?D" by auto
  from detach_returns [OF so ci x]
  obtain T2 where T2: "returns (\<lambda>n. deleteTask_detach n ?T x tx) T2"
    "shape T2 = shape ?U" "flags_defined T2" "\<forall>k. k \<notin> ?D \<longrightarrow> completion_ok T2 k"
    "\<forall>k. T2 k \<noteq> ?U k \<longrightarrow> (k, x) \<in> (parent_rel ?T)\<^sup>+ \<and> isDone T2 k"
    "\<forall>p. parentOf ?T x = Some p \<longrightarrow> childrenOf ?U p = [] \<longrightarrow> T2 = ?U"
    by (elim exE conjE) (rule that, assumption+)
  let ?T' = "T2 |` (- ?D)"
  let ?s' = "\<lparr> tasks = ?T', rootTaskIds = filter (\<lambda>i. i \<noteq> x) (rootTaskIds s) \<rparr>"
  have r2: "returns (\<lambda>n. bind_r (deleteTask_detach n ?T x tx)
          (\<lambda>tc. ok \<lparr> tasks = tc |` (- set ids),
                       rootTaskIds = filter (\<lambda>i. i \<noteq> x) (rootTaskIds s) \<rparr>)) ?s'"
    unfolding ids(2)
    by (rule returns_bind [where g = "\<lambda>n tc. ok \<lparr> tasks = tc |` (- ?D),
                       rootTaskIds = filter (\<lambda>i. i \<noteq> x) (rootTaskIds s) \<rparr>", OF T2(1) returns_const])
  have r: "returns (\<lambda>n. deleteTask n s x) ?s'"
    unfolding deleteTask_unfold [OF x]
    by (rule returns_bind [where g = "\<lambda>n ids. bind_r (deleteTask_detach n ?T x tx)
          (\<lambda>tc. ok \<lparr> tasks = tc |` (- set ids),
                       rootTaskIds = filter (\<lambda>i. i \<noteq> x) (rootTaskIds s) \<rparr>)", OF ids(1) r2])
  note v = restrict_views [OF so T2(2)]
  note vU = detach_node_views [OF so, of x]
  have so': "struct_ok ?T'" using so T2(2,3) by (rule restrict_struct_ok)
  have "completion_ok ?T' k" for k
  proof (cases "k \<in> ?D")
    case True
    then show ?thesis by (simp add: completion_ok_def v)
  next
    case False
    have "isDone ?T' ch = isDone T2 ch" if "ch \<in> set (childrenOf ?T' k)" for ch
    proof -
      from that False have "ch \<in> set (childrenOf ?T k)" "ch \<noteq> x" by (auto simp: v)
      with br False have "ch \<notin> ?D" by (rule subtree_child_outside)
      then show ?thesis by (simp add: v)
    qed
    moreover have "childrenOf ?T' k = childrenOf T2 k"
      using False shape_childrenOf [OF T2(2)] by (simp add: v vU)
    moreover have "isDone ?T' k = isDone T2 k" using False by (simp add: v)
    moreover have "completion_ok T2 k" using T2(4) False by blast
    ultimately show ?thesis by (simp add: completion_ok_def)
  qed
  then have ci': "completion_invariant ?T'" by (simp add: completion_invariant_def)
  have rs': "root_set_consistency ?s'"
  proof -
    have "k \<notin> ?D" if "k \<noteq> x" "parentOf ?T k = None" for k
      using subtree_has_parent [OF br _ that(1)] that(2) by blast
    then have "{k \<in> dom ?T'. parentOf ?T' k = None} = {k \<in> dom ?T. parentOf ?T k = None} - {x}"
      unfolding v by auto
    then show ?thesis using rs by (auto simp: root_set_consistency_def)
  qed
  have w: "wf_state ?s'" using so' ci' rs' by (simp add: wf_state_struct)
  show ?thesis
    by (intro exI [of _ ?s'] exI [of _ T2] conjI) (use r w T2 in simp_all)
qed

lemma example_descendant: "''l'' \<in> descendants example_tasks ''q''"
proof -
  have "(''q'', ''m'') \<in> child_rel example_tasks" "(''m'', ''l'') \<in> child_rel example_tasks"
    by (simp_all add: child_rel_def example_childrenOf)
  then have "(''q'', ''l'') \<in> (child_rel example_tasks)\<^sup>+" by (rule trancl_into_trancl2 [OF _ r_into_trancl])
  then show ?thesis by (simp add: descendants_def)
qed

text \<open>
  C2. For an existing task of a well-formed state, \<^verbatim>\<open>toggleTask\<close> returns, and in
  the state it returns the task itself and every descendant of it (through the children
  lists) has the new value of the flag, the negation of the task's old value.
\<close>

theorem toggleTask_forces_descendants:
  assumes "wf_state s" and "tasks s taskId = Some t"
  shows "\<exists>s'. returns (\<lambda>fuel. toggleTask fuel s taskId) s' \<and>
            (\<forall>d \<in> insert taskId (descendants (tasks s) taskId).
               \<exists>td. tasks s' d = Some td \<and> completed td = Some (\<not> js_true (completed t)))"
proof -
  from toggle_char [OF assms] obtain s' where s': "returns (\<lambda>n. toggleTask n s taskId) s'"
    "wf_state s'" "shape (tasks s') = shape (tasks s)"
    "\<forall>k \<in> subtree (tasks s) taskId. isDone (tasks s') k = (\<not> isDone (tasks s) taskId)" by blast
  have so: "struct_ok (tasks s)" and so': "struct_ok (tasks s')"
    using assms(1) s'(2) by (simp_all add: wf_state_struct)
  have "\<exists>td. tasks s' d = Some td \<and> completed td = Some (\<not> js_true (completed t))"
    if "d \<in> insert taskId (descendants (tasks s) taskId)" for d
  proof -
    have d: "d \<in> subtree (tasks s) taskId" using that by (simp add: subtree_descendants)
    have "referential_integrity (tasks s)" using so by (simp add: struct_ok_def)
    moreover have "taskId \<in> dom (tasks s)" using assms(2) by blast
    ultimately have "d \<in> dom (tasks s)" using d by (rule subtree_dom)
    then have "d \<in> dom (tasks s')" using shape_dom [OF s'(3)] by simp
    then obtain td where td: "tasks s' d = Some td" by blast
    have "completed td = Some (isDone (tasks s') d)"
      using struct_ok_upward [OF so'] td by (rule upward_ok_task(4))
    moreover have "isDone (tasks s) taskId = js_true (completed t)"
      using assms(2) by (rule isDone_Some)
    ultimately show ?thesis using td s'(4) d by simp
  qed
  with s'(1) show ?thesis by blast
qed

theorem toggleTask_forces_descendants_witness:
  "wf_state example_state \<and> tasks example_state ''q'' = Some (mk_task ''q'' True [''m''] None) \<and>
   (\<exists>s'. returns (\<lambda>fuel. toggleTask fuel example_state ''q'') s' \<and>
      (\<exists>td. tasks s' ''q'' = Some td \<and> completed td = Some False) \<and>
      (\<exists>td. tasks s' ''l'' = Some td \<and> completed td = Some False))"
proof -
  have t: "tasks example_state ''q'' = Some (mk_task ''q'' True [''m''] None)"
    by (simp add: example_state_def example_tasks_def)
  have d: "''l'' \<in> descendants (tasks example_state) ''q''"
    using example_descendant by (simp add: example_state_def)
  from toggleTask_forces_descendants [OF example_wf_state t] d
  show ?thesis using example_wf_state t by (auto simp: mk_task_def js_true_def)
qed

lemma add_node_lookup:
  assumes "tm p = Some tp"
  shows "add_node tm newId nt p k =
     (if k = p then Some (tp\<lparr>children := Some (childrenOf tm p @ [newId]), completed := Some False\<rparr>)
      else if k = newId then Some nt else tm k)"
  using assms by (simp add: add_node_def)

lemma example_ancestor: "''q'' \<in> ancestors example_tasks ''l''"
proof -
  have "(''q'', ''m'') \<in> parent_rel example_tasks" "(''m'', ''l'') \<in> parent_rel example_tasks"
    by (simp_all add: parent_rel_def example_parentOf)
  then have "(''q'', ''l'') \<in> (parent_rel example_tasks)\<^sup>+"
    by (rule trancl_into_trancl2 [OF _ r_into_trancl])
  then show ?thesis by (simp add: ancestors_def)
qed

text \<open>
  C3. In a well-formed state, for an existing parent and a fresh non-empty id from
  \<^verbatim>\<open>uuidv4()\<close>, \<^verbatim>\<open>addTask\<close> returns a state that has exactly one new key, the new
  id, holding an uncompleted leaf with the given title whose parent id is the parent; the
  parent's children list is the old one with the new id appended, and the parent is not
  completed; every ancestor of the parent has its flag set to false and is otherwise
  unchanged (so a completed ancestor becomes uncompleted and an uncompleted one is the same
  object as before); every other task and the root list are unchanged.
\<close>

theorem addTask_appends_leaf:
  assumes "wf_state s" and "tasks s parentId' = Some parent"
    and "newId \<notin> dom (tasks s)" and "newId \<noteq> []"
  shows "\<exists>s'. returns (\<lambda>fuel. addTask fuel newId now s parentId' title') s' \<and>
     dom (tasks s') = insert newId (dom (tasks s)) \<and>
     tasks s' newId = Some \<lparr> id_t = Some newId, title = Some title', description = Some [],
                             completed = Some False, children = Some [],
                             parentId = Some (Some parentId'), createdAt = Some now \<rparr> \<and>
     (\<exists>cs. children parent = Some cs \<and>
           tasks s' parentId' = Some (parent\<lparr>children := Some (cs @ [newId]), completed := Some False\<rparr>)) \<and>
     (\<forall>a ta. a \<in> ancestors (tasks s) parentId' \<longrightarrow> tasks s a = Some ta \<longrightarrow>
          tasks s' a = Some (ta\<lparr>completed := Some False\<rparr>) \<and>
          (completed ta = Some False \<longrightarrow> tasks s' a = tasks s a)) \<and>
     (\<forall>k. k \<noteq> newId \<longrightarrow> k \<noteq> parentId' \<longrightarrow> k \<notin> ancestors (tasks s) parentId' \<longrightarrow>
          tasks s' k = tasks s k) \<and>
     rootTaskIds s' = rootTaskIds s"
proof -
  let ?T = "tasks s"
  let ?nt = "newTask newId title' parentId' now"
  let ?U0 = "add_node ?T newId ?nt parentId'"
  from addTask_char [OF assms, of now title'] obtain s' where
    s': "returns (\<lambda>fuel. addTask fuel newId now s parentId' title') s'" "wf_state s'"
      "rootTaskIds s' = rootTaskIds s" "shape (tasks s') = shape ?U0"
      "\<forall>k. isDone (tasks s') k =
           (k \<noteq> parentId' \<and> (k, parentId') \<notin> (parent_rel ?T)\<^sup>+ \<and> isDone ?T k)"
    by blast
  have so: "struct_ok ?T" using assms(1) by (simp add: wf_state_struct)
  have up: "upward_ok ?T" using so by (rule struct_ok_upward)
  have fd: "flags_defined (tasks s')"
    using s'(2) by (simp add: wf_state_def well_typed_flags)
  note lk = shape_flag_lookup [OF s'(4) fd]
  note U0 = add_node_lookup [of ?T parentId' parent newId ?nt, OF assms(2)]
  have np: "newId \<noteq> parentId'" using assms(2,3) by auto
  have nd: "\<not> isDone ?T newId" using assms(3) by (simp add: isDone_def domIff)
  have 1: "dom (tasks s') = insert newId (dom ?T)"
    using shape_dom [OF s'(4)] add_node_views(1) [OF so assms(2,3)] by simp
  have "tasks s' newId = Some (?nt\<lparr>completed := Some (isDone (tasks s') newId)\<rparr>)"
    by (rule lk) (simp add: U0 np)
  then have 2: "tasks s' newId = Some ?nt" using s'(5) nd by (simp add: newTask_def)
  have cs: "children parent = Some (childrenOf ?T parentId')"
    using up assms(2) by (rule upward_ok_task(2))
  have "tasks s' parentId' = Some (parent\<lparr>children := Some (childrenOf ?T parentId' @ [newId]),
            completed := Some False\<rparr>\<lparr>completed := Some (isDone (tasks s') parentId')\<rparr>)"
    by (rule lk) (simp add: U0)
  then have 3: "tasks s' parentId' = Some (parent\<lparr>children := Some (childrenOf ?T parentId' @ [newId]),
            completed := Some False\<rparr>)" using s'(5) by simp
  have 4: "tasks s' a = Some (ta\<lparr>completed := Some False\<rparr>) \<and>
          (completed ta = Some False \<longrightarrow> tasks s' a = tasks s a)"
    if a: "a \<in> ancestors ?T parentId'" "tasks s a = Some ta" for a ta
  proof -
    have anc: "(a, parentId') \<in> (parent_rel ?T)\<^sup>+" using a(1) by (simp add: ancestors_def)
    have "a \<noteq> parentId'" using anc struct_ok_acyclic [OF so] by (auto simp: acyclic_def)
    moreover have "a \<noteq> newId" using a(2) assms(3) by auto
    ultimately have "?U0 a = Some ta" using a(2) by (simp add: U0)
    then have "tasks s' a = Some (ta\<lparr>completed := Some (isDone (tasks s') a)\<rparr>)" by (rule lk)
    then have *: "tasks s' a = Some (ta\<lparr>completed := Some False\<rparr>)" using s'(5) anc by simp
    have "ta\<lparr>completed := Some False\<rparr> = ta" if "completed ta = Some False"
      using that by (cases ta) simp
    with * a(2) show ?thesis by simp
  qed
  have 5: "tasks s' k = tasks s k"
    if k: "k \<noteq> newId" "k \<noteq> parentId'" "k \<notin> ancestors ?T parentId'" for k
  proof (cases "?T k")
    case None
    then have "?U0 k = None" using k by (simp add: U0)
    then have "tasks s' k = None" using shape_None [OF s'(4), of k] by simp
    with None show ?thesis by simp
  next
    case (Some t)
    then have "?U0 k = Some t" using k by (simp add: U0)
    then have "tasks s' k = Some (t\<lparr>completed := Some (isDone (tasks s') k)\<rparr>)" by (rule lk)
    moreover have "isDone (tasks s') k = isDone ?T k" using s'(5) k by (simp add: ancestors_def)
    moreover have "completed t = Some (isDone ?T k)" using up Some by (rule upward_ok_task(4))
    ultimately have "tasks s' k = Some (t\<lparr>completed := completed t\<rparr>)" by simp
    then show ?thesis using Some by simp
  qed
  have f3: "\<exists>cs. children parent = Some cs \<and>
           tasks s' parentId' = Some (parent\<lparr>children := Some (cs @ [newId]), completed := Some False\<rparr>)"
    using cs 3 by blast
  have f2: "tasks s' newId = Some \<lparr> id_t = Some newId, title = Some title', description = Some [],
                             completed = Some False, children = Some [],
                             parentId = Some (Some parentId'), createdAt = Some now \<rparr>"
    using 2 by (simp add: newTask_def)
  show ?thesis
  proof (intro exI [of _ s'] conjI allI impI)
    show "returns (\<lambda>fuel. addTask fuel newId now s parentId' title') s'" by (rule s'(1))
    show "dom (tasks s') = insert newId (dom (tasks s))" by (rule 1)
    show "rootTaskIds s' = rootTaskIds s" by (rule s'(3))
  qed (use f2 f3 4 5 in blast)+
qed

theorem addTask_appends_leaf_witness:
  "wf_state example_state \<and> tasks example_state ''l'' = Some (mk_task ''l'' True [] (Some ''m'')) \<and>
   ''n'' \<notin> dom (tasks example_state) \<and> ''n'' \<noteq> [] \<and>
   (\<exists>s'. returns (\<lambda>fuel. addTask fuel ''n'' 7 example_state ''l'' ''x'') s' \<and>
      tasks s' ''n'' = Some \<lparr> id_t = Some ''n'', title = Some ''x'', description = Some [],
                             completed = Some False, children = Some [],
                             parentId = Some (Some ''l''), createdAt = Some 7 \<rparr> \<and>
      tasks s' ''l'' = Some (mk_task ''l'' False [''n''] (Some ''m'')) \<and>
      tasks s' ''q'' = Some (mk_task ''q'' False [''m''] None) \<and>
      tasks s' ''a'' = Some (mk_task ''a'' True [] (Some ''r'')))"
proof -
  have t: "tasks example_state ''l'' = Some (mk_task ''l'' True [] (Some ''m''))"
    and q: "tasks example_state ''q'' = Some (mk_task ''q'' True [''m''] None)"
    and a: "tasks example_state ''a'' = Some (mk_task ''a'' True [] (Some ''r''))"
    by (simp_all add: example_state_def example_tasks_def)
  have n: "''n'' \<notin> dom (tasks example_state)" by (simp add: example_state_def example_dom)
  have ne: "''n'' \<noteq> []" by simp
  have anc: "''q'' \<in> ancestors (tasks example_state) ''l''"
    using example_ancestor by (simp add: example_state_def)
  have na: "''a'' \<notin> ancestors (tasks example_state) ''l''"
  proof
    assume "''a'' \<in> ancestors (tasks example_state) ''l''"
    then have "(''a'', ''l'') \<in> (parent_rel example_tasks)\<^sup>+"
      by (simp add: ancestors_def example_state_def)
    then obtain z where "(''a'', z) \<in> parent_rel example_tasks" by (metis converse_tranclE)
    then show False by (auto simp: parent_rel_def example_parentOf split: if_splits)
  qed
  from addTask_appends_leaf [OF example_wf_state t n ne, of 7 "''x''"]
  obtain s' cs where s': "returns (\<lambda>fuel. addTask fuel ''n'' 7 example_state ''l'' ''x'') s'"
    "tasks s' ''n'' = Some \<lparr> id_t = Some ''n'', title = Some ''x'', description = Some [],
                             completed = Some False, children = Some [],
                             parentId = Some (Some ''l''), createdAt = Some 7 \<rparr>"
    "children (mk_task ''l'' True [] (Some ''m'')) = Some cs"
    "tasks s' ''l'' = Some ((mk_task ''l'' True [] (Some ''m''))\<lparr>children := Some (cs @ [''n'']), completed := Some False\<rparr>)"
    "\<forall>a ta. a \<in> ancestors (tasks example_state) ''l'' \<longrightarrow> tasks example_state a = Some ta \<longrightarrow>
          tasks s' a = Some (ta\<lparr>completed := Some False\<rparr>) \<and>
          (completed ta = Some False \<longrightarrow> tasks s' a = tasks example_state a)"
    "\<forall>k. k \<noteq> ''n'' \<longrightarrow> k \<noteq> ''l'' \<longrightarrow> k \<notin> ancestors (tasks example_state) ''l'' \<longrightarrow>
          tasks s' k = tasks example_state k"
    by (elim exE conjE) (rule that, assumption+)
  have l: "tasks s' ''l'' = Some (mk_task ''l'' False [''n''] (Some ''m''))"
    using s'(3,4) by (simp add: mk_task_def)
  have q': "tasks s' ''q'' = Some (mk_task ''q'' False [''m''] None)"
    using s'(5) anc q by (simp add: mk_task_def)
  have a': "tasks s' ''a'' = Some (mk_task ''a'' True [] (Some ''r''))"
    using s'(6) na a by simp
  show ?thesis
    by (intro conjI exI [of _ s']) (fact example_wf_state t n ne s'(1) s'(2) l q' a')+
qed

lemma detach_node_lookup:
  assumes "struct_ok tm"
  shows "detach_node tm x k =
     (if parentOf tm x = Some k
      then map_option (\<lambda>t. t\<lparr>children := Some (filter (\<lambda>c. c \<noteq> x) (childrenOf tm k))\<rparr>) (tm k)
      else tm k)"
  by (auto simp: detach_node_def split: option.splits)

lemma parent_in_trancl: "parentOf tm x = Some p \<Longrightarrow> (p, x) \<in> (parent_rel tm)\<^sup>+"
  by (rule r_into_trancl) (simp add: parent_rel_def)

lemma ancestor_via_parent:
  assumes "(c, x) \<in> (parent_rel tm)\<^sup>+" "parentOf tm x = Some p"
  shows "(c, p) \<in> (parent_rel tm)\<^sup>*"
  using assms(1)
proof (cases rule: tranclE)
  case base
  then have "parentOf tm x = Some c" by (simp add: parent_rel_def)
  with assms(2) show ?thesis by simp
next
  case (step y)
  then have "parentOf tm x = Some y" by (simp add: parent_rel_def)
  with assms(2) step(1) show ?thesis by simp
qed

lemma parent_not_in_subtree:
  assumes "struct_ok tm" "(a, x) \<in> (parent_rel tm)\<^sup>+"
  shows "a \<notin> subtree tm x"
  using subtree_not_ancestor [OF assms(1) _ assms(2)] by blast

text \<open>
  C4. In a well-formed state, for an existing task, \<^verbatim>\<open>deleteTask\<close> returns a state
  whose keys are the old keys without the task and its descendants; the former parent is
  still a key and its children list is the old list without the task, the other entries in
  their order; the root list is the old one without the task.
\<close>

theorem deleteTask_removes_subtree:
  assumes "wf_state s" and "tasks s taskId = Some t"
  shows "\<exists>s'. returns (\<lambda>fuel. deleteTask fuel s taskId) s' \<and>
     dom (tasks s') = dom (tasks s) - insert taskId (descendants (tasks s) taskId) \<and>
     (\<forall>p. parentOf (tasks s) taskId = Some p \<longrightarrow>
          p \<in> dom (tasks s') \<and>
          childrenOf (tasks s') p = filter (\<lambda>c. c \<noteq> taskId) (childrenOf (tasks s) p) \<and>
          taskId \<notin> set (childrenOf (tasks s') p)) \<and>
     rootTaskIds s' = filter (\<lambda>i. i \<noteq> taskId) (rootTaskIds s) \<and>
     taskId \<notin> set (rootTaskIds s')"
proof -
  let ?T = "tasks s"
  from delete_char [OF assms] obtain s' T2 where
    s': "returns (\<lambda>n. deleteTask n s taskId) s'"
      "rootTaskIds s' = filter (\<lambda>i. i \<noteq> taskId) (rootTaskIds s)"
      "tasks s' = T2 |` (- subtree ?T taskId)" "shape T2 = shape (detach_node ?T taskId)"
    by (elim exE conjE) (rule that, assumption+)
  have so: "struct_ok ?T" using assms(1) by (simp add: wf_state_struct)
  note v = restrict_views [OF so s'(4)]
  have 1: "dom (tasks s') = dom ?T - insert taskId (descendants ?T taskId)"
    unfolding s'(3) v(1) by (simp add: subtree_descendants)
  have 2: "p \<in> dom (tasks s') \<and>
          childrenOf (tasks s') p = filter (\<lambda>c. c \<noteq> taskId) (childrenOf ?T p) \<and>
          taskId \<notin> set (childrenOf (tasks s') p)" if p: "parentOf ?T taskId = Some p" for p
  proof -
    have "(p, taskId) \<in> (parent_rel ?T)\<^sup>+" using p by (rule parent_in_trancl)
    with so have np: "p \<notin> subtree ?T taskId" by (rule parent_not_in_subtree)
    have "p \<in> dom ?T" using so p unfolding struct_ok_def referential_integrity_def by blast
    with np have "p \<in> dom (tasks s')" unfolding s'(3) v(1) by simp
    moreover have "childrenOf (tasks s') p = filter (\<lambda>c. c \<noteq> taskId) (childrenOf ?T p)"
      unfolding s'(3) v(2) using np by simp
    ultimately show ?thesis by simp
  qed
  show ?thesis
    by (intro exI [of _ s'] conjI allI impI) (use s'(1,2) 1 2 in simp_all)
qed

theorem deleteTask_removes_subtree_witness:
  "wf_state example_state \<and> tasks example_state ''m'' = Some (mk_task ''m'' True [''l''] (Some ''q'')) \<and>
   (\<exists>s'. returns (\<lambda>fuel. deleteTask fuel example_state ''m'') s' \<and>
      ''m'' \<notin> dom (tasks s') \<and> ''l'' \<notin> dom (tasks s') \<and> ''q'' \<in> dom (tasks s') \<and>
      childrenOf (tasks s') ''q'' = [] \<and> rootTaskIds s' = [''r'', ''q''])"
proof -
  have t: "tasks example_state ''m'' = Some (mk_task ''m'' True [''l''] (Some ''q''))"
    by (simp add: example_state_def example_tasks_def)
  have d: "''l'' \<in> descendants (tasks example_state) ''m''"
    by (simp add: descendants_def example_state_def child_rel_def example_childrenOf r_into_trancl')
  have p: "parentOf (tasks example_state) ''m'' = Some ''q''"
    by (simp add: example_state_def example_parentOf)
  from deleteTask_removes_subtree [OF example_wf_state t]
  obtain s' where s': "returns (\<lambda>fuel. deleteTask fuel example_state ''m'') s'"
    "dom (tasks s') = dom (tasks example_state) - insert ''m'' (descendants (tasks example_state) ''m'')"
    "\<forall>p. parentOf (tasks example_state) ''m'' = Some p \<longrightarrow>
          p \<in> dom (tasks s') \<and>
          childrenOf (tasks s') p = filter (\<lambda>c. c \<noteq> ''m'') (childrenOf (tasks example_state) p) \<and>
          ''m'' \<notin> set (childrenOf (tasks s') p)"
    "rootTaskIds s' = filter (\<lambda>i. i \<noteq> ''m'') (rootTaskIds example_state)"
    by (elim exE conjE) (rule that, assumption+)
  have 1: "''m'' \<notin> dom (tasks s')" "''l'' \<notin> dom (tasks s')" using s'(2) d by simp_all
  have 2: "''q'' \<in> dom (tasks s')" "childrenOf (tasks s') ''q'' = []"
    using s'(3) p by (simp_all add: example_state_def example_childrenOf)
  have 3: "rootTaskIds s' = [''r'', ''q'']" using s'(4) by (simp add: example_state_def)
  show ?thesis
    by (intro conjI exI [of _ s']) (fact example_wf_state t s'(1) 1 2 3)+
qed

text \<open>
  C5. In a well-formed state, for an existing task, \<^verbatim>\<open>deleteTask\<close> returns a state in
  which no remaining task that was completed is uncompleted, and only ancestors of the
  deleted task differ from before. If the remaining children of the former parent are not
  empty and all completed, the parent is completed; every ancestor whose children in the new
  state are not empty and all completed is completed. A parent left without children is the
  old object with an empty children list: its flag is the old one.
\<close>

theorem deleteTask_only_promotes:
  assumes "wf_state s" and "tasks s taskId = Some t"
  shows "\<exists>s'. returns (\<lambda>fuel. deleteTask fuel s taskId) s' \<and>
     (\<forall>k tk tk'. tasks s k = Some tk \<longrightarrow> tasks s' k = Some tk' \<longrightarrow>
          completed tk = Some True \<longrightarrow> completed tk' = Some True) \<and>
     (\<forall>k. k \<in> dom (tasks s') \<longrightarrow> k \<notin> ancestors (tasks s) taskId \<longrightarrow> tasks s' k = tasks s k) \<and>
     (\<forall>p. parentOf (tasks s) taskId = Some p \<longrightarrow>
          filter (\<lambda>c. c \<noteq> taskId) (childrenOf (tasks s) p) \<noteq> [] \<longrightarrow>
          (\<forall>c \<in> set (filter (\<lambda>c. c \<noteq> taskId) (childrenOf (tasks s) p)). isDone (tasks s) c) \<longrightarrow>
          isDone (tasks s') p) \<and>
     (\<forall>a \<in> ancestors (tasks s) taskId. childrenOf (tasks s') a \<noteq> [] \<longrightarrow>
          (\<forall>c \<in> set (childrenOf (tasks s') a). isDone (tasks s') c) \<longrightarrow> isDone (tasks s') a) \<and>
     (\<forall>p tp. parentOf (tasks s) taskId = Some p \<longrightarrow> tasks s p = Some tp \<longrightarrow>
          filter (\<lambda>c. c \<noteq> taskId) (childrenOf (tasks s) p) = [] \<longrightarrow>
          tasks s' p = Some (tp\<lparr>children := Some []\<rparr>))"
proof -
  let ?T = "tasks s"
  let ?D = "subtree ?T taskId"
  let ?U = "detach_node ?T taskId"
  from delete_char [OF assms] obtain s' T2 where
    s': "returns (\<lambda>n. deleteTask n s taskId) s'" "wf_state s'"
      "tasks s' = T2 |` (- ?D)" "shape T2 = shape ?U" "flags_defined T2"
      "\<forall>k. T2 k \<noteq> ?U k \<longrightarrow> (k, taskId) \<in> (parent_rel ?T)\<^sup>+ \<and> isDone T2 k"
      "\<forall>p. parentOf ?T taskId = Some p \<longrightarrow> childrenOf ?U p = [] \<longrightarrow> T2 = ?U"
    by (elim exE conjE) (rule that, assumption+)
  have so: "struct_ok ?T" using assms(1) by (simp add: wf_state_struct)
  have br: "back_reference ?T" using so by (simp add: struct_ok_def)
  have ci': "completion_invariant (tasks s')" using s'(2) by (simp add: wf_state_def)
  note v = restrict_views [OF so s'(4)]
  note vU = detach_node_views [OF so, of taskId]
  note U = detach_node_lookup [OF so, of taskId]
  have lk: "tasks s' k = T2 k" if "k \<in> dom (tasks s')" for k
    using that unfolding s'(3) by (auto simp: restrict_map_def split: if_splits)
  have 1: "completed tk' = Some True"
    if k: "tasks s k = Some tk" "tasks s' k = Some tk'" "completed tk = Some True" for k tk tk'
  proof (cases "T2 k = ?U k")
    case True
    have "k \<in> dom (tasks s')" using k(2) by blast
    then have "T2 k = Some tk'" using lk [of k] k(2) by simp
    with True k(1) have "completed tk' = completed tk" by (auto simp: U split: if_splits)
    with k(3) show ?thesis by simp
  next
    case False
    then have "isDone T2 k" using s'(6) by blast
    moreover have "k \<in> dom (tasks s')" using k(2) by blast
    then have "T2 k = Some tk'" using lk [of k] k(2) by simp
    ultimately show ?thesis by (simp add: isDone_def js_true_def)
  qed
  have 2: "tasks s' k = tasks s k" if k: "k \<in> dom (tasks s')" "k \<notin> ancestors ?T taskId" for k
  proof -
    have na: "(k, taskId) \<notin> (parent_rel ?T)\<^sup>+" using k(2) by (simp add: ancestors_def)
    then have "T2 k = ?U k" using s'(6) by blast
    moreover have "parentOf ?T taskId \<noteq> Some k" using na parent_in_trancl [of ?T taskId k] by blast
    ultimately show ?thesis using lk [OF k(1)] by (simp add: U)
  qed
  have 4: "isDone (tasks s') a" if a: "childrenOf (tasks s') a \<noteq> []"
    "\<forall>c \<in> set (childrenOf (tasks s') a). isDone (tasks s') c" for a
    using ci' a unfolding completion_invariant_def completion_ok_def by blast
  have 3: "isDone (tasks s') p" if p: "parentOf ?T taskId = Some p"
    "filter (\<lambda>c. c \<noteq> taskId) (childrenOf ?T p) \<noteq> []"
    "\<forall>c \<in> set (filter (\<lambda>c. c \<noteq> taskId) (childrenOf ?T p)). isDone ?T c" for p
  proof -
    have anc: "(p, taskId) \<in> (parent_rel ?T)\<^sup>+" using p(1) by (rule parent_in_trancl)
    with so have np: "p \<notin> ?D" by (rule parent_not_in_subtree)
    then have ch: "childrenOf (tasks s') p = filter (\<lambda>c. c \<noteq> taskId) (childrenOf ?T p)"
      unfolding s'(3) v(2) by simp
    have "isDone (tasks s') c" if c: "c \<in> set (childrenOf (tasks s') p)" for c
    proof -
      from c ch have c': "c \<in> set (childrenOf ?T p)" "c \<noteq> taskId" by auto
      with br np have cD: "c \<notin> ?D" by (rule subtree_child_outside)
      have "c \<in> dom ?T" using so c'(1) unfolding struct_ok_def referential_integrity_def by blast
      with cD have cd: "c \<in> dom (tasks s')" unfolding s'(3) v(1) by simp
      have "c \<notin> ancestors ?T taskId"
      proof
        assume "c \<in> ancestors ?T taskId"
        then have "(c, taskId) \<in> (parent_rel ?T)\<^sup>+" by (simp add: ancestors_def)
        then have "(c, p) \<in> (parent_rel ?T)\<^sup>*" using p(1) by (rule ancestor_via_parent)
        moreover have "(p, c) \<in> parent_rel ?T" using br c'(1)
          by (simp add: parent_rel_def back_reference_def)
        ultimately have "(c, c) \<in> (parent_rel ?T)\<^sup>+" by simp
        then show False using struct_ok_acyclic [OF so] by (simp add: acyclic_def)
      qed
      with cd have "tasks s' c = tasks s c" by (rule 2)
      then have "isDone (tasks s') c = isDone ?T c" by (rule isDone_eq_lookup)
      with p(3) c ch show ?thesis by simp
    qed
    with 4 [of p] p(2) ch show ?thesis by simp
  qed
  have 5: "tasks s' p = Some (tp\<lparr>children := Some []\<rparr>)"
    if p: "parentOf ?T taskId = Some p" "tasks s p = Some tp"
      "filter (\<lambda>c. c \<noteq> taskId) (childrenOf ?T p) = []" for p tp
  proof -
    have "(p, taskId) \<in> (parent_rel ?T)\<^sup>+" using p(1) by (rule parent_in_trancl)
    with so have np: "p \<notin> ?D" by (rule parent_not_in_subtree)
    have "T2 = ?U" using s'(7) p(1,3) by (simp add: vU)
    then have "tasks s' p = ?U p" unfolding s'(3) using np by simp
    then show ?thesis using p by (simp add: U)
  qed
  show ?thesis
  proof (intro exI [of _ s'] conjI allI impI ballI)
    show "returns (\<lambda>fuel. deleteTask fuel s taskId) s'" by (rule s'(1))
  qed (use 1 2 3 4 5 in blast)+
qed

theorem deleteTask_only_promotes_witness:
  "wf_state example_state \<and> tasks example_state ''b'' = Some (mk_task ''b'' False [] (Some ''r'')) \<and>
   \<not> isDone (tasks example_state) ''r'' \<and>
   (\<exists>s'. returns (\<lambda>fuel. deleteTask fuel example_state ''b'') s' \<and> isDone (tasks s') ''r'')"
proof -
  have t: "tasks example_state ''b'' = Some (mk_task ''b'' False [] (Some ''r''))"
    by (simp add: example_state_def example_tasks_def)
  have r: "\<not> isDone (tasks example_state) ''r''"
    by (simp add: example_state_def example_isDone)
  have p: "parentOf (tasks example_state) ''b'' = Some ''r''"
    by (simp add: example_state_def example_parentOf)
  have f: "filter (\<lambda>c. c \<noteq> ''b'') (childrenOf (tasks example_state) ''r'') = [''a'']"
    by (simp add: example_state_def example_childrenOf)
  have a: "isDone (tasks example_state) ''a''" by (simp add: example_state_def example_isDone)
  from deleteTask_only_promotes [OF example_wf_state t]
  obtain s' where s': "returns (\<lambda>fuel. deleteTask fuel example_state ''b'') s'"
    "\<forall>p. parentOf (tasks example_state) ''b'' = Some p \<longrightarrow>
          filter (\<lambda>c. c \<noteq> ''b'') (childrenOf (tasks example_state) p) \<noteq> [] \<longrightarrow>
          (\<forall>c \<in> set (filter (\<lambda>c. c \<noteq> ''b'') (childrenOf (tasks example_state) p)).
              isDone (tasks example_state) c) \<longrightarrow>
          isDone (tasks s') p"
    by (elim exE conjE) (rule that, assumption+)
  have "\<forall>c \<in> set (filter (\<lambda>c. c \<noteq> ''b'') (childrenOf (tasks example_state) ''r'')).
              isDone (tasks example_state) c" unfolding f using a by simp
  moreover have "filter (\<lambda>c. c \<noteq> ''b'') (childrenOf (tasks example_state) ''r'') \<noteq> []"
    unfolding f by simp
  ultimately have d: "isDone (tasks s') ''r''" using s'(2) p by blast
  show ?thesis
    by (intro conjI exI [of _ s']) (fact example_wf_state t r s'(1) d)+
qed

lemma or_else_simps [simp]: "or_else None a = a" "or_else (Some v) a = Some v"
  by (simp_all add: or_else_def)

lemma or_else_None [simp]: "or_else b None = b"
  by (cases b) simp_all

lemma spread_None [simp]: "spread None u = u"
  by (cases u) (simp add: spread_def empty_obj_def)

lemma spread_empty_obj [simp]: "spread (Some empty_obj) u = u"
  by (cases u) (simp add: spread_def empty_obj_def)

lemma spread_get_prop_None: "tm i = None \<Longrightarrow> spread (get_prop tm i) u = u"
  by (simp add: get_prop_def)

text \<open>
  C9. For an existing id and an update that has only the properties title and description
  (each may be absent), \<^verbatim>\<open>updateTask\<close> replaces the task by the same object with the
  given title and description (an absent one keeps the old value); the flag, the children
  list, the parent id, the id and the creation time of the task, every other entry of the
  map and the root list are unchanged.
\<close>

theorem updateTask_frame:
  assumes "tasks s i = Some t"
    and "id_t u = None" and "completed u = None" and "children u = None"
    and "parentId u = None" and "createdAt u = None"
  shows "tasks (updateTask s i u) i =
           Some (t\<lparr>title := or_else (title u) (title t),
                    description := or_else (description u) (description t)\<rparr>) \<and>
         (\<forall>k. k \<noteq> i \<longrightarrow> tasks (updateTask s i u) k = tasks s k) \<and>
         dom (tasks (updateTask s i u)) = dom (tasks s) \<and>
         rootTaskIds (updateTask s i u) = rootTaskIds s"
proof -
  have "spread (Some t) u = t\<lparr>title := or_else (title u) (title t),
                    description := or_else (description u) (description t)\<rparr>"
    using assms(2-) by (cases t) (simp add: spread_def)
  moreover have "i \<in> dom (tasks s)" using assms(1) by blast
  ultimately show ?thesis using assms(1) by (auto simp: updateTask_def)
qed

theorem updateTask_frame_witness:
  "tasks example_state ''a'' = Some (mk_task ''a'' True [] (Some ''r'')) \<and>
   id_t (empty_obj\<lparr>title := Some ''new''\<rparr>) = None \<and>
   completed (empty_obj\<lparr>title := Some ''new''\<rparr>) = None \<and>
   children (empty_obj\<lparr>title := Some ''new''\<rparr>) = None \<and>
   parentId (empty_obj\<lparr>title := Some ''new''\<rparr>) = None \<and>
   createdAt (empty_obj\<lparr>title := Some ''new''\<rparr>) = None \<and>
   tasks (updateTask example_state ''a'' (empty_obj\<lparr>title := Some ''new''\<rparr>)) ''a'' =
     Some \<lparr> id_t = Some ''a'', title = Some ''new'', description = Some [], completed = Some True,
            children = Some [], parentId = Some (Some ''r''), createdAt = Some 0 \<rparr> \<and>
   tasks (updateTask example_state ''a'' (empty_obj\<lparr>title := Some ''new''\<rparr>)) ''r'' =
     tasks example_state ''r'' \<and>
   rootTaskIds (updateTask example_state ''a'' (empty_obj\<lparr>title := Some ''new''\<rparr>)) = [''r'', ''q'']"
proof -
  have t: "tasks example_state ''a'' = Some (mk_task ''a'' True [] (Some ''r''))"
    by (simp add: example_state_def example_tasks_def)
  have u: "id_t (empty_obj\<lparr>title := Some ''new''\<rparr>) = None"
    "completed (empty_obj\<lparr>title := Some ''new''\<rparr>) = None"
    "children (empty_obj\<lparr>title := Some ''new''\<rparr>) = None"
    "parentId (empty_obj\<lparr>title := Some ''new''\<rparr>) = None"
    "createdAt (empty_obj\<lparr>title := Some ''new''\<rparr>) = None"
    by (simp_all add: empty_obj_def)
  from updateTask_frame [OF t u] t u show ?thesis
    by (simp add: mk_task_def empty_obj_def example_state_def)
qed

text \<open>
  C10. For an id that is not a key of the map, \<^verbatim>\<open>updateTask\<close> does not leave the state
  as it is: it stores the update object itself under that id, so the new entry has exactly
  the properties of the update and no other.
\<close>

theorem updateTask_missing_id:
  assumes "tasks s i = None"
  shows "tasks (updateTask s i u) i = Some u \<and> updateTask s i u \<noteq> s \<and>
         (\<forall>k. k \<noteq> i \<longrightarrow> tasks (updateTask s i u) k = tasks s k)"
proof -
  have 1: "tasks (updateTask s i u) i = Some u"
    using assms by (simp add: updateTask_def spread_get_prop_None)
  have "updateTask s i u \<noteq> s"
  proof
    assume "updateTask s i u = s"
    then have "tasks (updateTask s i u) i = tasks s i" by simp
    with 1 assms show False by simp
  qed
  with 1 show ?thesis by (simp add: updateTask_def)
qed

theorem updateTask_missing_id_witness:
  "tasks example_state ''zz'' = None \<and>
   tasks (updateTask example_state ''zz'' (empty_obj\<lparr>title := Some ''new''\<rparr>)) ''zz'' =
     Some \<lparr> id_t = None, title = Some ''new'', description = None, completed = None,
            children = None, parentId = None, createdAt = None \<rparr> \<and>
   updateTask example_state ''zz'' (empty_obj\<lparr>title := Some ''new''\<rparr>) \<noteq> example_state"
proof -
  have t: "tasks example_state ''zz'' = None"
    by (simp add: example_state_def example_tasks_def)
  from updateTask_missing_id [OF t, of "empty_obj\<lparr>title := Some ''new''\<rparr>"] t show ?thesis
    by (simp add: empty_obj_def)
qed

lemma toggleTask_missing:
  "tasks s i = None \<Longrightarrow> i \<notin> set object_prototype_keys \<Longrightarrow> toggleTask fuel s i = Some (Inr s)"
  by (simp add: toggleTask_def get_prop_None ok_def)

lemma addTask_missing:
  "tasks s i = None \<Longrightarrow> i \<notin> set object_prototype_keys \<Longrightarrow>
   addTask fuel newId now s i ttl = Some (Inr s)"
  by (simp add: addTask_def get_prop_None ok_def)

text \<open>
  The guards \<^verbatim>\<open>if (!task) return prev\<close> and \<^verbatim>\<open>if (!parent) return prev\<close> do not stop an
  id that names a member inherited from \<^verbatim>\<open>Object.prototype\<close>: \<^verbatim>\<open>updateDescendants\<close> then
  calls \<^verbatim>\<open>forEach\<close> on the missing \<^verbatim>\<open>children\<close> of that member, and \<^verbatim>\<open>addTask\<close> spreads
  them, which throws.
\<close>

lemma toggleTask_inherited:
  assumes "tasks s i = None" and "i \<in> set object_prototype_keys"
  shows "toggleTask (Suc fuel) s i = Some (Inl TypeError)"
proof -
  have "get_prop (tasks s) i = Some empty_obj" using assms by (rule get_prop_inherited)
  then show ?thesis by (simp add: toggleTask_def empty_obj_def throw_def)
qed

lemma addTask_inherited:
  assumes "tasks s i = None" and "i \<in> set object_prototype_keys"
  shows "addTask fuel newId now s i ttl = Some (Inl TypeError)"
proof -
  have "get_prop (tasks s) i = Some empty_obj" using assms by (rule get_prop_inherited)
  then show ?thesis by (simp add: addTask_def empty_obj_def throw_def)
qed

lemma example_inherited_id:
  "toggleTask (Suc 0) example_state ''constructor'' = Some (Inl TypeError) \<and>
   addTask 0 ''n'' 0 example_state ''toString'' ''x'' = Some (Inl TypeError)"
proof -
  have "tasks example_state ''constructor'' = None" "tasks example_state ''toString'' = None"
    by (simp_all add: example_state_def example_tasks_def)
  moreover have "''constructor'' \<in> set object_prototype_keys"
    "''toString'' \<in> set object_prototype_keys"
    by (simp_all add: object_prototype_keys_def)
  ultimately show ?thesis by (simp add: toggleTask_inherited addTask_inherited)
qed

lemma zz_not_inherited: "''zz'' \<notin> set object_prototype_keys"
  by (simp add: object_prototype_keys_def)

text \<open>
  C7, as stated, fails: for an id that is not a key, \<^verbatim>\<open>toggleTask\<close> and \<^verbatim>\<open>addTask\<close>
  return the previous state, which is not a failure.
\<close>

theorem missing_id_returns_state_counterexample:
  "tasks example_state ''zz'' = None \<and>
   toggleTask (Suc 0) example_state ''zz'' = Some (Inr example_state) \<and>
   addTask (Suc 0) ''n'' 0 example_state ''zz'' ''x'' = Some (Inr example_state)"
proof -
  have t: "tasks example_state ''zz'' = None"
    by (simp add: example_state_def example_tasks_def)
  then show ?thesis using zz_not_inherited by (simp add: toggleTask_missing addTask_missing)
qed

text \<open>
  C7, amended. For an id that is not a key of the map and is not the name of a member
  that the object inherits from \<^verbatim>\<open>Object.prototype\<close>, \<^verbatim>\<open>toggleTask\<close> and \<^verbatim>\<open>addTask\<close> (the
  id being the parent) return the previous state unchanged, whatever the fuel; no failure
  is signalled.
\<close>

theorem missing_id_returns_previous_state:
  assumes "tasks s i = None" and "i \<notin> set object_prototype_keys"
  shows "toggleTask fuel s i = Some (Inr s) \<and> addTask fuel newId now s i title' = Some (Inr s)"
proof
  have g: "get_prop (tasks s) i = None" using assms by (rule get_prop_None)
  show "toggleTask fuel s i = Some (Inr s)" using g by (simp add: toggleTask_def ok_def)
  show "addTask fuel newId now s i title' = Some (Inr s)" using g by (simp add: addTask_def ok_def)
qed

theorem missing_id_returns_previous_state_witness:
  "tasks example_state ''zz'' = None \<and> ''zz'' \<notin> set object_prototype_keys \<and>
   toggleTask 0 example_state ''zz'' = Some (Inr example_state) \<and>
   addTask 0 ''n'' 5 example_state ''zz'' ''x'' = Some (Inr example_state)"
proof -
  have t: "tasks example_state ''zz'' = None"
    by (simp add: example_state_def example_tasks_def)
  from missing_id_returns_previous_state [OF t zz_not_inherited, of 0 "''n''" 5 "''x''"]
    t zz_not_inherited
  show ?thesis by simp
qed

text \<open>
  C8, as stated, fails: with the empty title, \<^verbatim>\<open>addTask\<close> returns a state that holds
  the new task with that title, and \<^verbatim>\<open>updateTask\<close> stores the empty title.
\<close>

theorem empty_title_accepted_counterexample:
  "result_task (addTask (Suc 0) ''n'' 0 example_state ''b'' []) ''n'' =
     Some \<lparr> id_t = Some ''n'', title = Some [], description = Some [], completed = Some False,
            children = Some [], parentId = Some (Some ''b''), createdAt = Some 0 \<rparr> \<and>
   tasks (updateTask example_state ''a'' (empty_obj\<lparr>title := Some []\<rparr>)) ''a'' =
     Some \<lparr> id_t = Some ''a'', title = Some [], description = Some [], completed = Some True,
            children = Some [], parentId = Some (Some ''r''), createdAt = Some 0 \<rparr>"
  by (simp add: result_task_def addTask_def updateTask_def example_state_def example_tasks_def
      mk_task_def spread_def empty_obj_def js_true_def ok_def)

text \<open>
  C8, amended. \<^verbatim>\<open>addTask\<close> and \<^verbatim>\<open>updateTask\<close> do not check the title: in a
  well-formed state, for an existing parent and a fresh id, \<^verbatim>\<open>addTask\<close> returns a
  state whose new task has exactly the given title, and for an existing id
  \<^verbatim>\<open>updateTask\<close> with a title stores exactly that title, whatever the title is (the
  empty string included).
\<close>

theorem titles_are_stored_unchecked:
  assumes "wf_state s" and "tasks s p = Some parent"
    and "newId \<notin> dom (tasks s)" and "newId \<noteq> []" and "tasks s i = Some t"
  shows "(\<exists>s'. returns (\<lambda>fuel. addTask fuel newId now s p ttl) s' \<and>
              (\<exists>tn. tasks s' newId = Some tn \<and> title tn = Some ttl)) \<and>
         (\<exists>t'. tasks (updateTask s i (empty_obj\<lparr>title := Some ttl\<rparr>)) i = Some t' \<and>
               title t' = Some ttl)"
proof -
  let ?nt = "newTask newId ttl p now"
  from addTask_char [OF assms(1-4), of now ttl]
  obtain s' where s': "returns (\<lambda>fuel. addTask fuel newId now s p ttl) s'" "wf_state s'"
    "shape (tasks s') = shape (add_node (tasks s) newId ?nt p)"
    by (elim exE conjE) (rule that, assumption+)
  have fd: "flags_defined (tasks s')" using s'(2) by (simp add: wf_state_def well_typed_flags)
  have "newId \<noteq> p" using assms(2,3) by auto
  then have "add_node (tasks s) newId ?nt p newId = Some ?nt"
    using assms(2) by (simp add: add_node_def)
  with shape_flag_lookup [OF s'(3) fd]
  have nt: "tasks s' newId = Some (?nt\<lparr>completed := Some (isDone (tasks s') newId)\<rparr>)" by blast
  have 1: "\<exists>s'. returns (\<lambda>fuel. addTask fuel newId now s p ttl) s' \<and>
              (\<exists>tn. tasks s' newId = Some tn \<and> title tn = Some ttl)"
    using s'(1) nt by (intro exI [of _ s']) (simp add: newTask_def)
  have 2: "\<exists>t'. tasks (updateTask s i (empty_obj\<lparr>title := Some ttl\<rparr>)) i = Some t' \<and>
               title t' = Some ttl"
    using assms(5) by (simp add: updateTask_def spread_def)
  from 1 2 show ?thesis by (rule conjI)
qed

theorem titles_are_stored_unchecked_witness:
  "wf_state example_state \<and> tasks example_state ''b'' = Some (mk_task ''b'' False [] (Some ''r'')) \<and>
   ''n'' \<notin> dom (tasks example_state) \<and> ''n'' \<noteq> [] \<and>
   tasks example_state ''a'' = Some (mk_task ''a'' True [] (Some ''r'')) \<and>
   (\<exists>s'. returns (\<lambda>fuel. addTask fuel ''n'' 0 example_state ''b'' []) s' \<and>
              (\<exists>tn. tasks s' ''n'' = Some tn \<and> title tn = Some [])) \<and>
   (\<exists>t'. tasks (updateTask example_state ''a'' (empty_obj\<lparr>title := Some []\<rparr>)) ''a'' = Some t' \<and>
               title t' = Some [])"
proof -
  have b: "tasks example_state ''b'' = Some (mk_task ''b'' False [] (Some ''r''))"
    and a: "tasks example_state ''a'' = Some (mk_task ''a'' True [] (Some ''r''))"
    by (simp_all add: example_state_def example_tasks_def)
  have n: "''n'' \<notin> dom (tasks example_state)" by (simp add: example_state_def example_dom)
  have ne: "''n'' \<noteq> []" by simp
  note th = titles_are_stored_unchecked [OF example_wf_state b n ne a, of 0 "[]"]
  show ?thesis
    by (intro conjI) (fact example_wf_state b n ne a th [THEN conjunct1] th [THEN conjunct2])+
qed

lemma deleteTask_missing:
  "tasks s i = None \<Longrightarrow> deleteTask (Suc fuel) s i = Some (Inl TypeError)"
  by (cases "i \<in> set object_prototype_keys")
     (simp_all add: deleteTask_def get_prop_def empty_obj_def throw_def ok_def)

text \<open>
  C6, as stated, fails: the example state is well-formed, its root \<open>r\<close> is not completed
  and has the completed child \<open>a\<close>; after two calls of \<^verbatim>\<open>toggleTask\<close> on \<open>r\<close> the
  child \<open>a\<close> is not completed.
\<close>

theorem toggle_twice_counterexample:
  "wf_state example_state \<and>
   tasks example_state ''a'' = Some (mk_task ''a'' True [] (Some ''r'')) \<and>
   result_task (toggle_twice (Suc (Suc 0)) example_state ''r'') ''a'' =
     Some (mk_task ''a'' False [] (Some ''r''))"
proof -
  have "result_task (toggle_twice (Suc (Suc 0)) example_state ''r'') ''a'' =
     Some (mk_task ''a'' False [] (Some ''r''))"
    by (simp add: result_task_def toggle_twice_def toggleTask_def example_state_def
        example_tasks_def mk_task_def js_true_def ok_def)
  moreover have "tasks example_state ''a'' = Some (mk_task ''a'' True [] (Some ''r''))"
    by (simp add: example_state_def example_tasks_def)
  ultimately show ?thesis using example_wf_state by simp
qed

lemma app_state_eqI:
  fixes s s' :: app_state
  assumes "tasks s' = tasks s" "rootTaskIds s' = rootTaskIds s"
  shows "s' = s"
  using assms by (cases s; cases s') simp

text \<open>
  C6, amended. In a well-formed state, for an existing task all of whose descendants have
  the same flag as the task itself (every leaf is such a task), two calls of
  \<^verbatim>\<open>toggleTask\<close> in succession return exactly the original state.
\<close>

theorem toggle_twice_restores:
  assumes wf: "wf_state s" and t: "tasks s taskId = Some t"
    and same: "\<forall>d \<in> descendants (tasks s) taskId. isDone (tasks s) d = isDone (tasks s) taskId"
  shows "returns (\<lambda>fuel. toggle_twice fuel s taskId) s"
proof -
  let ?T = "tasks s"
  let ?R = "parent_rel ?T"
  from toggle_char [OF wf t] obtain s1 where
    s1: "returns (\<lambda>n. toggleTask n s taskId) s1" "wf_state s1" "rootTaskIds s1 = rootTaskIds s"
      "shape (tasks s1) = shape ?T"
      "\<forall>k \<in> subtree ?T taskId. isDone (tasks s1) k = (\<not> isDone ?T taskId)"
      "\<forall>k. k \<notin> subtree ?T taskId \<longrightarrow> (k, taskId) \<notin> ?R\<^sup>+ \<longrightarrow> tasks s1 k = ?T k"
    by (elim exE conjE) (rule that, assumption+)
  have "taskId \<in> dom (tasks s1)" using shape_dom [OF s1(4)] t by auto
  then obtain t1 where t1: "tasks s1 taskId = Some t1" by blast
  have sub1: "subtree (tasks s1) = subtree ?T" using s1(4) by (rule shape_subtree)
  have R1: "parent_rel (tasks s1) = ?R" using s1(4) by (rule shape_parent_rel)
  from toggle_char [OF s1(2) t1] obtain s2 where
    s2: "returns (\<lambda>n. toggleTask n s1 taskId) s2" "wf_state s2" "rootTaskIds s2 = rootTaskIds s1"
      "shape (tasks s2) = shape (tasks s1)"
      "\<forall>k \<in> subtree ?T taskId. isDone (tasks s2) k = (\<not> isDone (tasks s1) taskId)"
      "\<forall>k. k \<notin> subtree ?T taskId \<longrightarrow> (k, taskId) \<notin> ?R\<^sup>+ \<longrightarrow> tasks s2 k = tasks s1 k"
    unfolding sub1 R1 by (elim exE conjE) (rule that, assumption+)
  have so: "struct_ok ?T" and ci: "completion_invariant ?T"
    using wf by (simp_all add: wf_state_struct)
  have ci2: "completion_invariant (tasks s2)" using s2(2) by (simp add: wf_state_def)
  have sh: "shape (tasks s2) = shape ?T" using s2(4) s1(4) by simp
  have x1: "isDone (tasks s1) taskId = (\<not> isDone ?T taskId)" using s1(5) by simp
  have out: "isDone (tasks s2) k = isDone ?T k" if "k \<notin> {a. (a, taskId) \<in> ?R\<^sup>+}" for k
  proof (cases "k \<in> subtree ?T taskId")
    case True
    then have "isDone (tasks s2) k = isDone ?T taskId" using s2(5) x1 by simp
    moreover have "isDone ?T k = isDone ?T taskId"
      using True same by (auto simp: subtree_descendants)
    ultimately show ?thesis by simp
  next
    case False
    then have "tasks s2 k = tasks s1 k" "tasks s1 k = ?T k" using that s2(6) s1(6) by simp_all
    then have "tasks s2 k = ?T k" by simp
    then show ?thesis by (rule isDone_eq_lookup)
  qed
  have inn: "childrenOf ?T k \<noteq> []" if "k \<in> {a. (a, taskId) \<in> ?R\<^sup>+}" for k
    using so that ancestors_have_children [of ?T k taskId] by (simp add: struct_ok_def)
  have dn: "isDone (tasks s2) k = isDone ?T k" for k
    using struct_ok_wf_child [OF so] shape_childrenOf [OF sh] ci ci2 out inn
    by (rule completion_determined)
  have "?T = tasks s2"
  proof (rule shape_flags_eq)
    show "shape ?T = shape (tasks s2)" using sh by simp
    show "flags_defined ?T" using wf by (simp add: wf_state_def well_typed_flags)
    show "flags_defined (tasks s2)" using s2(2) by (simp add: wf_state_def well_typed_flags)
    show "isDone ?T k = isDone (tasks s2) k" for k using dn [of k] by simp
  qed
  then have "s2 = s" using s2(3) s1(3) by (intro app_state_eqI) simp_all
  with s2(1) have r2: "returns (\<lambda>n. toggleTask n s1 taskId) s" by simp
  show ?thesis
    unfolding toggle_twice_def
    by (rule returns_bind [where g = "\<lambda>n s'. toggleTask n s' taskId", OF s1(1) r2])
qed

lemma example_descendants_q: "descendants example_tasks ''q'' \<subseteq> {''m'', ''l''}"
proof
  fix d assume "d \<in> descendants example_tasks ''q''"
  then have "(''q'', d) \<in> (child_rel example_tasks)\<^sup>+" by (simp add: descendants_def)
  then obtain y where "(y, d) \<in> child_rel example_tasks" by (metis tranclE)
  then have "d \<in> {''a'', ''b'', ''m'', ''l''}"
    by (auto simp: child_rel_def example_childrenOf split: if_splits)
  moreover have "d \<noteq> ''a''" "d \<noteq> ''b''"
  proof -
    have "(''q'', d) \<in> (child_rel example_tasks)\<^sup>+ \<Longrightarrow> d = ''m'' \<or> d = ''l''"
      by (induction rule: trancl_induct)
         (auto simp: child_rel_def example_childrenOf split: if_splits)
    with \<open>(''q'', d) \<in> (child_rel example_tasks)\<^sup>+\<close> show "d \<noteq> ''a''" "d \<noteq> ''b''" by auto
  qed
  ultimately show "d \<in> {''m'', ''l''}" by auto
qed

theorem toggle_twice_restores_witness:
  "wf_state example_state \<and> tasks example_state ''q'' = Some (mk_task ''q'' True [''m''] None) \<and>
   isDone (tasks example_state) ''m'' = isDone (tasks example_state) ''q'' \<and>
   isDone (tasks example_state) ''l'' = isDone (tasks example_state) ''q'' \<and>
   returns (\<lambda>fuel. toggle_twice fuel example_state ''q'') example_state"
proof -
  have t: "tasks example_state ''q'' = Some (mk_task ''q'' True [''m''] None)"
    by (simp add: example_state_def example_tasks_def)
  have d: "\<forall>d \<in> descendants (tasks example_state) ''q''.
       isDone (tasks example_state) d = isDone (tasks example_state) ''q''"
    using example_descendants_q by (auto simp: example_state_def example_isDone)
  have m: "isDone (tasks example_state) ''m'' = isDone (tasks example_state) ''q''"
    and l: "isDone (tasks example_state) ''l'' = isDone (tasks example_state) ''q''"
    by (simp_all add: example_state_def example_isDone)
  note th = toggle_twice_restores [OF example_wf_state t d]
  show ?thesis
    by (intro conjI) (fact example_wf_state t m l th)+
qed

lemma updateTask_wf:
  assumes wf: "wf_state s" and t: "tasks s i = Some t"
  shows "wf_state (updateTask s i (empty_obj\<lparr>title := a, description := b\<rparr>))"
proof -
  let ?T = "tasks s"
  let ?t' = "t\<lparr>title := or_else a (title t), description := or_else b (description t)\<rparr>"
  let ?s' = "updateTask s i (empty_obj\<lparr>title := a, description := b\<rparr>)"
  have "spread (Some t) (empty_obj\<lparr>title := a, description := b\<rparr>) = ?t'"
    by (cases t) (simp add: spread_def empty_obj_def)
  then have T': "tasks ?s' = ?T(i \<mapsto> ?t')" and r: "rootTaskIds ?s' = rootTaskIds s"
    using t by (simp_all add: updateTask_def)
  have d: "dom (tasks ?s') = dom ?T" unfolding T' using t by auto
  have c: "childrenOf (tasks ?s') = childrenOf ?T"
    unfolding T' using t by (auto simp: childrenOf_def fun_eq_iff)
  have p: "parentOf (tasks ?s') = parentOf ?T"
    unfolding T' using t by (auto simp: parentOf_def fun_eq_iff)
  have dn: "isDone (tasks ?s') = isDone ?T"
    unfolding T' using t by (auto simp: isDone_def fun_eq_iff)
  have wt: "well_typed ?T" using wf by (simp add: wf_state_def)
  have "well_typed (tasks ?s')"
    unfolding well_typed_def
  proof (intro conjI allI impI)
    show "finite (dom (tasks ?s'))" using wt by (simp add: d well_typed_def)
  next
    fix k tk assume k: "tasks ?s' k = Some tk"
    from wt t have wi: "i \<noteq> [] \<and> id_t t = Some i \<and> title t \<noteq> None \<and> description t \<noteq> None \<and>
        completed t \<noteq> None \<and> children t \<noteq> None \<and> parentId t \<noteq> None \<and> createdAt t \<noteq> None"
      unfolding well_typed_def by blast
    have "or_else a (title t) \<noteq> None" using wi by (cases a) simp_all
    moreover have "or_else b (description t) \<noteq> None" using wi by (cases b) simp_all
    ultimately have "or_else a (title t) \<noteq> None" "or_else b (description t) \<noteq> None"
      by simp_all
    then have w': "i \<noteq> [] \<and> id_t ?t' = Some i \<and> title ?t' \<noteq> None \<and> description ?t' \<noteq> None \<and>
        completed ?t' \<noteq> None \<and> children ?t' \<noteq> None \<and> parentId ?t' \<noteq> None \<and> createdAt ?t' \<noteq> None"
      using wi by simp
    have "k \<noteq> [] \<and> id_t tk = Some k \<and> title tk \<noteq> None \<and> description tk \<noteq> None \<and>
        completed tk \<noteq> None \<and> children tk \<noteq> None \<and> parentId tk \<noteq> None \<and> createdAt tk \<noteq> None"
    proof (cases "k = i")
      case True
      with k T' have "tk = ?t'" by simp
      with w' True show ?thesis by simp
    next
      case False
      with k T' have "?T k = Some tk" by simp
      with wt show ?thesis unfolding well_typed_def by blast
    qed
    then show "k \<noteq> []" "id_t tk = Some k" "title tk \<noteq> None" "description tk \<noteq> None"
      "completed tk \<noteq> None" "children tk \<noteq> None" "parentId tk \<noteq> None" "createdAt tk \<noteq> None"
      by simp_all
  qed
  moreover have "referential_integrity (tasks ?s')"
    using wf unfolding wf_state_def referential_integrity_def c p d by blast
  moreover have "back_reference (tasks ?s')"
    using wf unfolding wf_state_def back_reference_def c p by blast
  moreover have "acyclicity (tasks ?s')"
    using wf unfolding wf_state_def acyclicity_def parent_rel_def p by blast
  moreover have "completion_invariant (tasks ?s')"
    using wf unfolding wf_state_def completion_invariant_def completion_ok_def c dn by blast
  moreover have "root_set_consistency ?s'"
    using wf unfolding wf_state_def root_set_consistency_def p d r by blast
  ultimately show ?thesis unfolding wf_state_def by blast
qed

lemma apply_op_wf:
  assumes wf: "wf_state s" and v: "valid_op s op"
  shows "\<exists>s'. returns (\<lambda>fuel. apply_op fuel s op) s' \<and> wf_state s'"
proof (cases op)
  case (Create p ttl newId now)
  with v obtain tp where "tasks s p = Some tp" "newId \<notin> dom (tasks s)" "newId \<noteq> []" by auto
  from addTask_char [OF wf this, of now ttl] show ?thesis unfolding Create by auto
next
  case (ToggleCompletion i)
  with v obtain t where "tasks s i = Some t" by auto
  from toggle_char [OF wf this] show ?thesis unfolding ToggleCompletion by auto
next
  case (EditFields i a b)
  with v obtain t where "tasks s i = Some t" by auto
  from updateTask_wf [OF wf this, where a = a and b = b]
  have "wf_state (updateTask s i (empty_obj\<lparr>title := a, description := b\<rparr>))" .
  moreover have "returns (\<lambda>fuel. apply_op fuel s (EditFields i a b))
      (updateTask s i (empty_obj\<lparr>title := a, description := b\<rparr>))"
    using returns_const [of "updateTask s i (empty_obj\<lparr>title := a, description := b\<rparr>)"] by simp
  ultimately show ?thesis unfolding EditFields by blast
next
  case (Delete i)
  with v obtain t where "tasks s i = Some t" by auto
  from delete_char [OF wf this] show ?thesis unfolding Delete by auto
qed

lemma run_ops_wf:
  assumes "wf_state s" "ops_valid s ops"
  shows "\<exists>ss. returns (\<lambda>fuel. run_ops fuel s ops) ss \<and> length ss = length ops \<and>
              (\<forall>s' \<in> set ss. wf_state s')"
  using assms
proof (induction ops arbitrary: s)
  case Nil
  have "returns (\<lambda>fuel. run_ops fuel s []) []" using returns_const [of "[]"] by simp
  then show ?case by (intro exI [of _ "[]"]) simp
next
  case (Cons op ops)
  from Cons.prems have v: "valid_op s op" by simp
  from apply_op_wf [OF Cons.prems(1) v] obtain s' where
    s': "returns (\<lambda>fuel. apply_op fuel s op) s'" "wf_state s'" by blast
  with Cons.prems(2) have "ops_valid s' ops" by simp
  from Cons.IH [OF s'(2) this] obtain ss where
    ss: "returns (\<lambda>fuel. run_ops fuel s' ops) ss" "length ss = length ops"
      "\<forall>x \<in> set ss. wf_state x" by blast
  have r2: "returns (\<lambda>fuel. bind_r (run_ops fuel s' ops) (\<lambda>ss. ok (s' # ss))) (s' # ss)"
    by (rule returns_bind [where g = "\<lambda>n ss. ok (s' # ss)", OF ss(1) returns_const])
  have "returns (\<lambda>fuel. run_ops fuel s (op # ops)) (s' # ss)"
    unfolding run_ops.simps
    by (rule returns_bind [where g = "\<lambda>n s'. bind_r (run_ops n s' ops) (\<lambda>ss. ok (s' # ss))",
          OF s'(1) r2])
  then show ?case using ss(2,3) s'(2) by (intro exI [of _ "s' # ss"]) simp
qed

lemma wf_state_completion:
  assumes wf: "wf_state s" and k: "tasks s k = Some tk" "children tk = Some cs" "cs \<noteq> []"
  shows "completed tk = Some True \<longleftrightarrow>
         (\<forall>c \<in> set cs. \<exists>tc. tasks s c = Some tc \<and> completed tc = Some True)"
proof -
  have "completion_ok (tasks s) k" using wf by (simp add: wf_state_def completion_invariant_def)
  moreover have "childrenOf (tasks s) k = cs" using k(1,2) by (rule childrenOf_Some)
  moreover have "isDone (tasks s) k = (completed tk = Some True)"
    using k(1) by (simp add: isDone_def js_true_def)
  moreover have "isDone (tasks s) c = (\<exists>tc. tasks s c = Some tc \<and> completed tc = Some True)" for c
    by (auto simp: isDone_def js_true_def split: option.splits)
  ultimately show ?thesis using k(3) by (simp add: completion_ok_def)
qed

text \<open>
  C1. From a well-formed state, every sequence of operations each of which is valid in
  the state it is applied to runs to the end, and the state after each operation is
  well-formed: it satisfies the five invariants (and the shape of the data). In
  particular, in each of these states a task with a non-empty children list is completed
  exactly when all its children are.
\<close>

theorem operations_preserve_invariants:
  assumes "wf_state s" and "ops_valid s ops"
  shows "\<exists>ss. returns (\<lambda>fuel. run_ops fuel s ops) ss \<and> length ss = length ops \<and>
     (\<forall>s' \<in> set ss.
        wf_state s' \<and> referential_integrity (tasks s') \<and> back_reference (tasks s') \<and>
        acyclicity (tasks s') \<and> completion_invariant (tasks s') \<and> root_set_consistency s' \<and>
        (\<forall>k tk cs. tasks s' k = Some tk \<longrightarrow> children tk = Some cs \<longrightarrow> cs \<noteq> [] \<longrightarrow>
           (completed tk = Some True \<longleftrightarrow>
            (\<forall>c \<in> set cs. \<exists>tc. tasks s' c = Some tc \<and> completed tc = Some True))))"
proof -
  from run_ops_wf [OF assms] obtain ss where
    ss: "returns (\<lambda>fuel. run_ops fuel s ops) ss" "length ss = length ops"
      "\<forall>s' \<in> set ss. wf_state s'" by blast
  have "wf_state s' \<and> referential_integrity (tasks s') \<and> back_reference (tasks s') \<and>
        acyclicity (tasks s') \<and> completion_invariant (tasks s') \<and> root_set_consistency s' \<and>
        (\<forall>k tk cs. tasks s' k = Some tk \<longrightarrow> children tk = Some cs \<longrightarrow> cs \<noteq> [] \<longrightarrow>
           (completed tk = Some True \<longleftrightarrow>
            (\<forall>c \<in> set cs. \<exists>tc. tasks s' c = Some tc \<and> completed tc = Some True)))"
    if "s' \<in> set ss" for s'
  proof -
    have w: "wf_state s'" using ss(3) that by blast
    then show ?thesis using wf_state_completion [OF w] by (simp add: wf_state_def)
  qed
  with ss(1,2) show ?thesis by (intro exI [of _ ss]) simp
qed

lemma example_ops_valid:
  "ops_valid example_state [ToggleCompletion ''b'', Delete ''a'']"
proof -
  have b: "tasks example_state ''b'' = Some (mk_task ''b'' False [] (Some ''r''))"
    by (simp add: example_state_def example_tasks_def)
  have "''a'' \<in> dom (tasks s')"
    if r: "returns (\<lambda>fuel. toggleTask fuel example_state ''b'') s'" for s'
  proof -
    from toggle_char [OF example_wf_state b] obtain s1 where
      s1: "returns (\<lambda>n. toggleTask n example_state ''b'') s1"
        "shape (tasks s1) = shape (tasks example_state)"
      by (elim exE conjE) (rule that, assumption+)
    have "s' = s1" using r s1(1) by (rule returns_unique)
    then have "dom (tasks s') = dom (tasks example_state)" using shape_dom [OF s1(2)] by simp
    then show ?thesis by (simp add: example_state_def example_dom)
  qed
  moreover have "''b'' \<in> dom (tasks example_state)" using b by blast
  ultimately show ?thesis by simp
qed

theorem operations_preserve_invariants_witness:
  "wf_state example_state \<and> ops_valid example_state [ToggleCompletion ''b'', Delete ''a''] \<and>
   (\<exists>ss. returns (\<lambda>fuel. run_ops fuel example_state [ToggleCompletion ''b'', Delete ''a'']) ss \<and>
         length ss = 2 \<and> (\<forall>s' \<in> set ss. wf_state s' \<and> completion_invariant (tasks s')))"
proof -
  from operations_preserve_invariants [OF example_wf_state example_ops_valid]
  obtain ss where ss:
    "returns (\<lambda>fuel. run_ops fuel example_state [ToggleCompletion ''b'', Delete ''a'']) ss"
    "length ss = length [ToggleCompletion ''b'', Delete ''a'']"
    "\<forall>s' \<in> set ss.
        wf_state s' \<and> referential_integrity (tasks s') \<and> back_reference (tasks s') \<and>
        acyclicity (tasks s') \<and> completion_invariant (tasks s') \<and> root_set_consistency s' \<and>
        (\<forall>k tk cs. tasks s' k = Some tk \<longrightarrow> children tk = Some cs \<longrightarrow> cs \<noteq> [] \<longrightarrow>
           (completed tk = Some True \<longleftrightarrow>
            (\<forall>c \<in> set cs. \<exists>tc. tasks s' c = Some tc \<and> completed tc = Some True)))"
    by (elim exE conjE) (rule that, assumption+)
  have l: "length ss = 2" using ss(2) by simp
  have w: "\<forall>s' \<in> set ss. wf_state s' \<and> completion_invariant (tasks s')" using ss(3) by blast
  show ?thesis
    by (intro conjI exI [of _ ss]) (fact example_wf_state example_ops_valid ss(1) l w)+
qed

end
